theory Spec2Isabelle
  imports Main "HOL-Library.AList" "HOL-Library.Sublist"
begin

section \<open>XML parts as DOM trees\<close>

text \<open>
  The repair script \<^verbatim>\<open>ooxml_fixup.py\<close> and the validator \<^verbatim>\<open>ooxml_validate.py\<close> work on
  minidom documents. An element has a qualified tag name, attributes and child nodes; the
  only other node kind the code reads is the text node (\<^verbatim>\<open>child.nodeType == TEXT_NODE\<close>).
  The code holds on to element objects after it has collected them and mutates them later
  (\<^verbatim>\<open>el.setAttribute\<close>, \<^verbatim>\<open>el.parentNode.removeChild(el)\<close>), so every element carries a
  reference \<open>ref\<close> that stands for the identity of the Python object. A document is the list
  of the children of the minidom \<^verbatim>\<open>Document\<close> node (a parsed file has one root element).

  Strings are byte strings, attribute values are kept in an association list read with
  \<open>map_of\<close>.
\<close>

datatype node =
  is_Elem: Elem (ref: nat) (tag: string) (attrs: "(string \<times> string) list") (kids: "node list")
| Text (data: string)

type_synonym document = "node list"

text \<open>\<^verbatim>\<open>el.getAttribute(name)\<close>: the value, or the empty string when the attribute is absent.\<close>

definition getAttribute :: "node \<Rightarrow> string \<Rightarrow> string" where
  "getAttribute el name = (case map_of (attrs el) name of None \<Rightarrow> [] | Some v \<Rightarrow> v)"

text \<open>All elements below a list of child nodes, in document order (minidom walks the
  children, appends a matching element and then descends into it).\<close>

fun elements :: "node list \<Rightarrow> node list" where
  "elements [] = []"
| "elements (Text s # ns) = elements ns"
| "elements (Elem r t a ks # ns) = Elem r t a ks # elements ks @ elements ns"

text \<open>\<^verbatim>\<open>doc.getElementsByTagName(tag)\<close> and \<^verbatim>\<open>el.getElementsByTagName(tag)\<close>.\<close>

definition get_elements_by_tag :: "document \<Rightarrow> string \<Rightarrow> node list" where
  "get_elements_by_tag doc tg = filter (\<lambda>el. tag el = tg) (elements doc)"

definition getElementsByTagName :: "node \<Rightarrow> string \<Rightarrow> node list" where
  "getElementsByTagName el tg = filter (\<lambda>e. tag e = tg) (elements (kids el))"

text \<open>\<^verbatim>\<open>el.setAttribute(name, v)\<close> on the element object \<open>r\<close>.\<close>

fun setAttribute :: "nat \<Rightarrow> string \<Rightarrow> string \<Rightarrow> node list \<Rightarrow> node list" where
  "setAttribute r name v [] = []"
| "setAttribute r name v (Text s # ns) = Text s # setAttribute r name v ns"
| "setAttribute r name v (Elem r' t a ks # ns) =
     Elem r' t (if r' = r then AList.update name v a else a) (setAttribute r name v ks)
       # setAttribute r name v ns"

text \<open>\<^verbatim>\<open>el.parentNode.removeChild(el)\<close> on the element object \<open>r\<close>: the element leaves the
  tree together with everything below it. For an element that already sits in a detached
  subtree nothing changes in the document.\<close>

fun removeChild :: "nat \<Rightarrow> node list \<Rightarrow> node list" where
  "removeChild r [] = []"
| "removeChild r (Text s # ns) = Text s # removeChild r ns"
| "removeChild r (Elem r' t a ks # ns) =
     (if r' = r then removeChild r ns else Elem r' t a (removeChild r ks) # removeChild r ns)"

text \<open>The parser gives every element an object of its own.\<close>

definition wf_doc :: "document \<Rightarrow> bool" where
  "wf_doc doc = distinct (map ref (elements doc))"

section \<open>Python's \<^verbatim>\<open>str.strip\<close>, \<^verbatim>\<open>int\<close> and \<^verbatim>\<open>str\<close> on ASCII\<close>

definition is_space :: "char \<Rightarrow> bool" where
  "is_space c = (let n = (of_char c :: nat) in (9 \<le> n \<and> n \<le> 13) \<or> (28 \<le> n \<and> n \<le> 32))"

definition py_strip :: "string \<Rightarrow> string" where
  "py_strip s = rev (dropWhile is_space (rev (dropWhile is_space s)))"

definition is_digit :: "char \<Rightarrow> bool" where
  "is_digit c = (let n = (of_char c :: nat) in 48 \<le> n \<and> n \<le> 57)"

definition digit_of :: "char \<Rightarrow> nat" where
  "digit_of c = of_char c - 48"

text \<open>Decimal digits, single underscores allowed between digits.\<close>

fun digits_value :: "nat \<Rightarrow> string \<Rightarrow> nat option" where
  "digits_value acc [] = Some acc"
| "digits_value acc (c # cs) =
     (if is_digit c then digits_value (10 * acc + digit_of c) cs
      else if c = CHR ''_'' \<and> cs \<noteq> [] \<and> is_digit (hd cs) then digits_value acc cs
      else None)"

definition unsigned_value :: "string \<Rightarrow> nat option" where
  "unsigned_value s = (if s \<noteq> [] \<and> is_digit (hd s) then digits_value 0 s else None)"

text \<open>\<^verbatim>\<open>int(val)\<close>; \<open>None\<close> is the \<^verbatim>\<open>ValueError\<close>.\<close>

definition py_int :: "string \<Rightarrow> int option" where
  "py_int s =
     (case py_strip s of
        [] \<Rightarrow> None
      | c # r \<Rightarrow>
          if c = CHR ''-'' then map_option (\<lambda>n. - int n) (unsigned_value r)
          else if c = CHR ''+'' then map_option int (unsigned_value r)
          else map_option int (unsigned_value (c # r)))"

fun digits :: "nat \<Rightarrow> string" where
  "digits n =
     (if n < 10 then [char_of (48 + n)] else digits (n div 10) @ [char_of (48 + n mod 10)])"

declare digits.simps [simp del]

text \<open>\<^verbatim>\<open>str(new_id)\<close>.\<close>

definition py_str :: "int \<Rightarrow> string" where
  "py_str i = (if i < 0 then CHR ''-'' # digits (nat (- i)) else digits (nat i))"

section \<open>The unpacked package\<close>

text \<open>
  The directory is an association list from relative paths to files, a file that is not
  well-formed XML is \<open>Malformed\<close>. \<open>written\<close> is the log of the calls of \<^verbatim>\<open>write_xml\<close>.
  A file is kept as the document it parses to: \<^verbatim>\<open>doc.toxml\<close> followed by
  \<^verbatim>\<open>minidom.parse\<close> is taken to give the document back, except for a document whose
  root element was removed, which is written as a bare XML declaration and no longer parses.
\<close>

datatype part = Malformed | Xml document

record package =
  files :: "(string \<times> part) list"
  written :: "string list"

definition path_exists :: "package \<Rightarrow> string \<Rightarrow> bool" where
  "path_exists pkg path = (map_of (files pkg) path \<noteq> None)"

text \<open>\<^verbatim>\<open>parse_xml\<close> returns \<^verbatim>\<open>(doc, True)\<close> or \<^verbatim>\<open>(None, False)\<close>; a missing file raises
  inside \<^verbatim>\<open>minidom.parse\<close> and is caught like a parse error.\<close>

definition parse_xml :: "package \<Rightarrow> string \<Rightarrow> document option" where
  "parse_xml pkg path = (case map_of (files pkg) path of Some (Xml doc) \<Rightarrow> Some doc | _ \<Rightarrow> None)"

definition to_part :: "document \<Rightarrow> part" where
  "to_part doc = (if list_ex is_Elem doc then Xml doc else Malformed)"

definition write_xml :: "document \<Rightarrow> string \<Rightarrow> package \<Rightarrow> package" where
  "write_xml doc path pkg =
     pkg\<lparr>files := AList.update path (to_part doc) (files pkg), written := written pkg @ [path]\<rparr>"

definition ends_with :: "string \<Rightarrow> string \<Rightarrow> bool" where
  "ends_with suf s = (drop (length s - length suf) s = suf)"

text \<open>\<^verbatim>\<open>unpacked_dir.rglob("*.rels")\<close>.\<close>

definition rglob_rels :: "package \<Rightarrow> string list" where
  "rglob_rels pkg = filter (ends_with ''.rels'') (map fst (files pkg))"

definition doc_path :: string where "doc_path = ''word/document.xml''"
definition comments_path :: string where "comments_path = ''word/comments.xml''"
definition ct_path :: string where "ct_path = ''[Content_Types].xml''"
definition ext_path :: string where "ext_path = ''word/commentsExtended.xml''"
definition ids_path :: string where "ids_path = ''word/commentsIds.xml''"
definition extensible_path :: string where "extensible_path = ''word/commentsExtensible.xml''"

section \<open>A. ID deconfliction (\<^verbatim>\<open>ooxml_fixup.py\<close>)\<close>

definition BOOKMARK_TAGS :: "string list" where
  "BOOKMARK_TAGS = [''w:bookmarkStart'', ''w:bookmarkEnd'']"

definition COMMENT_DOC_TAGS :: "string list" where
  "COMMENT_DOC_TAGS = [''w:commentRangeStart'', ''w:commentRangeEnd'', ''w:commentReference'']"

definition CHANGE_TAGS :: "string list" where
  "CHANGE_TAGS = [''w:ins'', ''w:del'', ''w:rPrChange'', ''w:pPrChange'', ''w:sectPrChange'',
                  ''w:tblPrChange'', ''w:trPrChange'', ''w:tcPrChange'', ''w:tblGridChange'']"

text \<open>The dictionary \<^verbatim>\<open>{id_int: [(tag, element)]}\<close> in insertion order;
  \<^verbatim>\<open>d.setdefault(k, []).append(v)\<close>.\<close>

type_synonym id_map = "(int \<times> (string \<times> node) list) list"

fun setdefault_append :: "'k \<Rightarrow> 'v \<Rightarrow> ('k \<times> 'v list) list \<Rightarrow> ('k \<times> 'v list) list" where
  "setdefault_append k v [] = [(k, [v])]"
| "setdefault_append k v ((k', vs) # m) =
     (if k' = k then (k', vs @ [v]) # m else (k', vs) # setdefault_append k v m)"

definition collect_el :: "string \<Rightarrow> node \<Rightarrow> id_map \<Rightarrow> id_map" where
  "collect_el tg el id_map =
     (let val = getAttribute el ''w:id'' in
      if val = [] then id_map
      else case py_int val of
             None \<Rightarrow> id_map
           | Some id_int \<Rightarrow> setdefault_append id_int (tg, el) id_map)"

definition collect_w_ids :: "document \<Rightarrow> string list \<Rightarrow> id_map" where
  "collect_w_ids doc tags =
     fold (\<lambda>tg id_map. fold (collect_el tg) (get_elements_by_tag doc tg) id_map) tags []"

text \<open>The loop that builds an \<^verbatim>\<open>old \<rightarrow> new\<close> mapping over the sorted ids, threading
  \<^verbatim>\<open>next_id\<close>.\<close>

fun build_remap :: "int list \<Rightarrow> (int \<Rightarrow> bool) \<Rightarrow> int \<Rightarrow> (int \<times> int) list
                     \<Rightarrow> (int \<times> int) list \<times> int" where
  "build_remap [] collides next_id remap = (remap, next_id)"
| "build_remap (old_id # rest) collides next_id remap =
     (if collides old_id
      then build_remap rest collides (next_id + 1) (remap @ [(old_id, next_id)])
      else build_remap rest collides next_id remap)"

text \<open>\<^verbatim>\<open>for tag, el in ids[old_id]: el.setAttribute("w:id", str(new_id)); count += 1\<close>.\<close>

fun set_ids :: "(string \<times> node) list \<Rightarrow> string \<Rightarrow> document \<times> nat \<Rightarrow> document \<times> nat" where
  "set_ids [] v st = st"
| "set_ids ((tg, el) # rest) v (doc, n) =
     set_ids rest v (setAttribute (ref el) ''w:id'' v doc, n + 1)"

fun renumber :: "(int \<times> int) list \<Rightarrow> id_map \<Rightarrow> document \<times> nat \<Rightarrow> document \<times> nat" where
  "renumber [] ids st = st"
| "renumber ((old_id, new_id) # rest) ids st =
     renumber rest ids
       (case map_of ids old_id of None \<Rightarrow> st | Some els \<Rightarrow> set_ids els (py_str new_id) st)"

text \<open>The mirror of the comment renumbering in \<^verbatim>\<open>comments.xml\<close>.\<close>

fun renumber_comments :: "node list \<Rightarrow> (int \<times> int) list \<Rightarrow> document \<Rightarrow> document" where
  "renumber_comments [] remap cdoc = cdoc"
| "renumber_comments (comment_el # rest) remap cdoc =
     (let val = getAttribute comment_el ''w:id'' in
      if val = [] then renumber_comments rest remap cdoc
      else case py_int val of
             None \<Rightarrow> renumber_comments rest remap cdoc
           | Some old_id \<Rightarrow>
               (case map_of remap old_id of
                  None \<Rightarrow> renumber_comments rest remap cdoc
                | Some new_id \<Rightarrow>
                    renumber_comments rest remap
                      (setAttribute (ref comment_el) ''w:id'' (py_str new_id) cdoc)))"

record deconflict_summary =
  comments_renumbered :: nat
  changes_renumbered :: nat

definition id_set :: "document \<Rightarrow> string list \<Rightarrow> int set" where
  "id_set doc tags = set (map fst (collect_w_ids doc tags))"

definition has_collision :: "document \<Rightarrow> bool" where
  "has_collision doc =
     (id_set doc BOOKMARK_TAGS \<inter> id_set doc COMMENT_DOC_TAGS \<noteq> {} \<or>
      id_set doc BOOKMARK_TAGS \<inter> id_set doc CHANGE_TAGS \<noteq> {} \<or>
      id_set doc COMMENT_DOC_TAGS \<inter> id_set doc CHANGE_TAGS \<noteq> {})"

definition max_id :: "document \<Rightarrow> int" where
  "max_id doc =
     (let all_id_values = map fst (collect_w_ids doc (BOOKMARK_TAGS @ COMMENT_DOC_TAGS @ CHANGE_TAGS))
      in fold max (tl all_id_values) (hd all_id_values))"

text \<open>The two mappings. Both loops test membership in the sets collected before any
  renumbering; the second continues with the \<^verbatim>\<open>next_id\<close> the first one left.\<close>

definition comment_id_remap :: "document \<Rightarrow> (int \<times> int) list \<times> int" where
  "comment_id_remap doc =
     build_remap (sort (remdups (map fst (collect_w_ids doc COMMENT_DOC_TAGS))))
       (\<lambda>old_id. old_id \<in> id_set doc BOOKMARK_TAGS \<or> old_id \<in> id_set doc CHANGE_TAGS)
       (max_id doc + 1) []"

definition change_id_remap :: "document \<Rightarrow> (int \<times> int) list \<times> int" where
  "change_id_remap doc =
     build_remap (sort (remdups (map fst (collect_w_ids doc CHANGE_TAGS))))
       (\<lambda>old_id. old_id \<in> id_set doc BOOKMARK_TAGS \<or> old_id \<in> id_set doc COMMENT_DOC_TAGS)
       (snd (comment_id_remap doc)) []"

text \<open>The document after the comment renumbering, and after both.\<close>

definition renumber_comment_nodes :: "document \<Rightarrow> document \<times> nat" where
  "renumber_comment_nodes doc =
     renumber (fst (comment_id_remap doc)) (collect_w_ids doc COMMENT_DOC_TAGS) (doc, 0)"

definition renumber_change_nodes :: "document \<Rightarrow> document \<Rightarrow> document \<times> nat" where
  "renumber_change_nodes doc doc1 =
     renumber (fst (change_id_remap doc)) (collect_w_ids doc CHANGE_TAGS) (doc1, 0)"

definition deconflict_ids :: "package \<Rightarrow> deconflict_summary \<times> package" where
  "deconflict_ids pkg =
     (let summary = \<lparr>comments_renumbered = 0, changes_renumbered = 0\<rparr> in
      case parse_xml pkg doc_path of
        None \<Rightarrow> (summary, pkg)
      | Some doc \<Rightarrow>
          if collect_w_ids doc (BOOKMARK_TAGS @ COMMENT_DOC_TAGS @ CHANGE_TAGS) = []
          then (summary, pkg)
          else if \<not> has_collision doc then (summary, pkg)
          else
            let comments_doc =
                  (if path_exists pkg comments_path then parse_xml pkg comments_path else None);
                remap = fst (comment_id_remap doc);
                (doc1, n_comments) = renumber_comment_nodes doc;
                comments_doc1 =
                  (case comments_doc of
                     None \<Rightarrow> None
                   | Some cdoc \<Rightarrow>
                       if remap \<noteq> []
                       then Some (renumber_comments (get_elements_by_tag cdoc ''w:comment'') remap cdoc)
                       else Some cdoc);
                (doc2, n_changes) = renumber_change_nodes doc doc1;
                pkg1 = write_xml doc2 doc_path pkg;
                pkg2 =
                  (case comments_doc1 of
                     None \<Rightarrow> pkg1
                   | Some cdoc1 \<Rightarrow> if remap \<noteq> [] then write_xml cdoc1 comments_path pkg1 else pkg1)
            in (\<lparr>comments_renumbered = n_comments, changes_renumbered = n_changes\<rparr>, pkg2))"

section \<open>B. Deduplicate relationships\<close>

text \<open>
  \<^verbatim>\<open>for el in list(get_elements_by_tag(doc, tag))\<close>: the loop runs over the elements
  collected before the first removal, with the set \<^verbatim>\<open>seen\<close> of keys and the counter. The
  three loops of the source (Override by PartName, Default by Extension, Relationship by
  Type and Target) differ in the key only.
\<close>

fun dedup_loop :: "(node \<Rightarrow> 'k) \<Rightarrow> node list \<Rightarrow> 'k set \<Rightarrow> document \<times> nat \<Rightarrow> document \<times> nat" where
  "dedup_loop key [] seen st = st"
| "dedup_loop key (el # els) seen (doc, n) =
     (if key el \<in> seen
      then dedup_loop key els seen (removeChild (ref el) doc, n + 1)
      else dedup_loop key els (insert (key el) seen) (doc, n))"

definition part_name :: "node \<Rightarrow> string" where
  "part_name el = getAttribute el ''PartName''"

definition extension :: "node \<Rightarrow> string" where
  "extension el = getAttribute el ''Extension''"

definition type_target :: "node \<Rightarrow> string \<times> string" where
  "type_target el = (getAttribute el ''Type'', getAttribute el ''Target'')"

record dedup_summary =
  content_types_removed :: nat
  rels_removed :: nat

definition dedup_content_types :: "package \<Rightarrow> nat \<times> package" where
  "dedup_content_types pkg =
     (if path_exists pkg ct_path then
        case parse_xml pkg ct_path of
          None \<Rightarrow> (0, pkg)
        | Some doc \<Rightarrow>
            let (doc1, n1) = dedup_loop part_name (get_elements_by_tag doc ''Override'') {} (doc, 0);
                (doc2, n2) = dedup_loop extension (get_elements_by_tag doc1 ''Default'') {} (doc1, n1)
            in (n2, if n2 > 0 then write_xml doc2 ct_path pkg else pkg)
      else (0, pkg))"

definition dedup_rels_file :: "string \<Rightarrow> nat \<times> package \<Rightarrow> nat \<times> package" where
  "dedup_rels_file rels_path st =
     (case st of (total_n, pkg) \<Rightarrow>
        case parse_xml pkg rels_path of
          None \<Rightarrow> (total_n, pkg)
        | Some doc \<Rightarrow>
            let (doc1, removed) =
                  dedup_loop type_target (get_elements_by_tag doc ''Relationship'') {} (doc, 0)
            in if removed > 0 then (total_n + removed, write_xml doc1 rels_path pkg)
               else (total_n, pkg))"

definition dedup_relationships :: "package \<Rightarrow> dedup_summary \<times> package" where
  "dedup_relationships pkg =
     (let (ct, pkg1) = dedup_content_types pkg;
          (rels, pkg2) = fold dedup_rels_file (rglob_rels pkg1) (0, pkg1)
      in (\<lparr>content_types_removed = ct, rels_removed = rels\<rparr>, pkg2))"

section \<open>C. Clean orphaned comment artifacts\<close>

definition para_id_of :: "node \<Rightarrow> string" where
  "para_id_of p_el =
     (if getAttribute p_el ''w14:paraId'' \<noteq> [] then getAttribute p_el ''w14:paraId''
      else getAttribute p_el ''w:paraId'')"

definition valid_para_ids :: "document \<Rightarrow> string set" where
  "valid_para_ids comments_doc =
     set (filter (\<lambda>para_id. para_id \<noteq> [])
           (map para_id_of
             (concat (map (\<lambda>comment_el. getElementsByTagName comment_el ''w:p'')
                        (get_elements_by_tag comments_doc ''w:comment'')))))"

text \<open>The loop over \<^verbatim>\<open>w15:commentEx\<close>: orphans are removed, the durable ids of the entries
  with a valid paraId are collected.\<close>

fun clean_extended :: "node list \<Rightarrow> string set \<Rightarrow> document \<times> nat \<times> string set
                        \<Rightarrow> document \<times> nat \<times> string set" where
  "clean_extended [] valid st = st"
| "clean_extended (el # els) valid (doc, removed, durable) =
     (let para_id = getAttribute el ''w15:paraId'' in
      if para_id \<noteq> [] \<and> para_id \<notin> valid
      then clean_extended els valid (removeChild (ref el) doc, removed + 1, durable)
      else if para_id \<noteq> [] \<and> para_id \<in> valid
      then (let did = getAttribute el ''w15:durableId'' in
            clean_extended els valid
              (doc, removed, if did \<noteq> [] then insert did durable else durable))
      else clean_extended els valid (doc, removed, durable))"

fun clean_ids :: "node list \<Rightarrow> string set \<Rightarrow> document \<times> nat \<Rightarrow> document \<times> nat" where
  "clean_ids [] valid st = st"
| "clean_ids (el # els) valid (doc, removed) =
     (let para_id = getAttribute el ''w16cid:paraId'' in
      if para_id \<noteq> [] \<and> para_id \<notin> valid
      then clean_ids els valid (removeChild (ref el) doc, removed + 1)
      else clean_ids els valid (doc, removed))"

fun clean_extensible :: "node list \<Rightarrow> string set \<Rightarrow> document \<times> nat \<Rightarrow> document \<times> nat" where
  "clean_extensible [] durable_ids_from_valid st = st"
| "clean_extensible (el # els) durable_ids_from_valid (doc, removed) =
     (let durable_id = getAttribute el ''w16cex:durableId'' in
      if durable_id \<noteq> [] \<and> durable_ids_from_valid \<noteq> {} \<and> durable_id \<notin> durable_ids_from_valid
      then clean_extensible els durable_ids_from_valid (removeChild (ref el) doc, removed + 1)
      else clean_extensible els durable_ids_from_valid (doc, removed))"

text \<open>The three parts in the order of the source; each returns the package and the running
  \<^verbatim>\<open>orphans_removed\<close>, the first also \<^verbatim>\<open>durable_ids_from_valid\<close>.\<close>

definition process_extended :: "string set \<Rightarrow> package \<Rightarrow> nat \<times> string set \<times> package" where
  "process_extended valid pkg =
     (if path_exists pkg ext_path then
        case parse_xml pkg ext_path of
          None \<Rightarrow> (0, {}, pkg)
        | Some ext_doc \<Rightarrow>
            (case clean_extended (get_elements_by_tag ext_doc ''w15:commentEx'') valid (ext_doc, 0, {})
             of (ext_doc1, removed, durable) \<Rightarrow>
               if removed > 0 then (removed, durable, write_xml ext_doc1 ext_path pkg)
               else (0, durable, pkg))
      else (0, {}, pkg))"

definition process_ids :: "string set \<Rightarrow> nat \<times> package \<Rightarrow> nat \<times> package" where
  "process_ids valid st =
     (case st of (total_n, pkg) \<Rightarrow>
        if path_exists pkg ids_path then
          case parse_xml pkg ids_path of
            None \<Rightarrow> (total_n, pkg)
          | Some ids_doc \<Rightarrow>
              (case clean_ids (get_elements_by_tag ids_doc ''w16cid:commentId'') valid (ids_doc, 0)
               of (ids_doc1, removed) \<Rightarrow>
                 if removed > 0 then (total_n + removed, write_xml ids_doc1 ids_path pkg)
                 else (total_n, pkg))
        else (total_n, pkg))"

definition process_extensible :: "string set \<Rightarrow> nat \<times> package \<Rightarrow> nat \<times> package" where
  "process_extensible durable_ids_from_valid st =
     (case st of (total_n, pkg) \<Rightarrow>
        if path_exists pkg extensible_path then
          case parse_xml pkg extensible_path of
            None \<Rightarrow> (total_n, pkg)
          | Some ext_doc \<Rightarrow>
              (case clean_extensible (get_elements_by_tag ext_doc ''w16cex:commentExtensible'')
                      durable_ids_from_valid (ext_doc, 0)
               of (ext_doc1, removed) \<Rightarrow>
                 if removed > 0 then (total_n + removed, write_xml ext_doc1 extensible_path pkg)
                 else (total_n, pkg))
        else (total_n, pkg))"

definition clean_orphaned_comments :: "package \<Rightarrow> nat \<times> package" where
  "clean_orphaned_comments pkg =
     (if \<not> path_exists pkg comments_path then (0, pkg)
      else case parse_xml pkg comments_path of
        None \<Rightarrow> (0, pkg)
      | Some comments_doc \<Rightarrow>
          (case process_extended (valid_para_ids comments_doc) pkg of
             (n1, durable_ids_from_valid, pkg1) \<Rightarrow>
               process_extensible durable_ids_from_valid
                 (process_ids (valid_para_ids comments_doc) (n1, pkg1))))"

text \<open>The set \<^verbatim>\<open>durable_ids_from_valid\<close> that the phase hands from the first part to the
  third.\<close>

definition durable_ids_from_valid :: "package \<Rightarrow> string set" where
  "durable_ids_from_valid pkg =
     (case parse_xml pkg comments_path of
        None \<Rightarrow> {}
      | Some comments_doc \<Rightarrow> fst (snd (process_extended (valid_para_ids comments_doc) pkg)))"

section \<open>D. Fix \<^verbatim>\<open>xml:space="preserve"\<close>\<close>

text \<open>The concatenated data of the text children of a \<^verbatim>\<open>w:t\<close> element.\<close>

definition text_of :: "node \<Rightarrow> string" where
  "text_of wt = concat (map data (filter (\<lambda>child. \<not> is_Elem child) (kids wt)))"

fun fix_loop :: "node list \<Rightarrow> document \<times> nat \<times> bool \<Rightarrow> document \<times> nat \<times> bool" where
  "fix_loop [] st = st"
| "fix_loop (wt # rest) (doc, added, modified) =
     (let text = text_of wt in
      if text = [] then fix_loop rest (doc, added, modified)
      else if text \<noteq> py_strip text \<and> getAttribute wt ''xml:space'' = []
      then fix_loop rest (setAttribute (ref wt) ''xml:space'' ''preserve'' doc, added + 1, True)
      else fix_loop rest (doc, added, modified))"

definition fix_xml_space :: "package \<Rightarrow> nat \<times> package" where
  "fix_xml_space pkg =
     (case parse_xml pkg doc_path of
        None \<Rightarrow> (0, pkg)
      | Some doc \<Rightarrow>
          (case fix_loop (get_elements_by_tag doc ''w:t'') (doc, 0, False) of
             (doc1, added, modified) \<Rightarrow>
               (added, if modified then write_xml doc1 doc_path pkg else pkg)))"

section \<open>Main: the repair pipeline\<close>

record results =
  id_deconfliction :: deconflict_summary
  relationship_dedup :: dedup_summary
  orphans_removed :: nat
  space_attrs_added :: nat
  total_changes :: nat

definition main :: "package \<Rightarrow> results \<times> package" where
  "main pkg =
     (let (a, pkg1) = deconflict_ids pkg;
          (b, pkg2) = dedup_relationships pkg1;
          (c, pkg3) = clean_orphaned_comments pkg2;
          (d, pkg4) = fix_xml_space pkg3
      in (\<lparr>id_deconfliction = a, relationship_dedup = b, orphans_removed = c,
           space_attrs_added = d,
           total_changes = comments_renumbered a + changes_renumbered a +
                           content_types_removed b + rels_removed b + c + d\<rparr>, pkg4))"

section \<open>What a phase writes\<close>

text \<open>The calls of \<^verbatim>\<open>write_xml\<close> between two states of the package, and the
  write-if-dirty discipline: every part is written at most once, and only a part whose
  content is no longer what it was.\<close>

definition phase_writes :: "package \<Rightarrow> package \<Rightarrow> string list" where
  "phase_writes pkg pkg' = drop (length (written pkg)) (written pkg')"

definition write_if_dirty :: "package \<Rightarrow> package \<Rightarrow> bool" where
  "write_if_dirty pkg pkg' =
     (take (length (written pkg)) (written pkg') = written pkg \<and>
      distinct (phase_writes pkg pkg') \<and>
      (\<forall>p \<in> set (phase_writes pkg pkg'). map_of (files pkg') p \<noteq> map_of (files pkg) p))"

section \<open>The validator (\<^verbatim>\<open>ooxml_validate.py\<close>)\<close>

text \<open>
  An issue is the dictionary the check appends: \<^verbatim>\<open>"check"\<close> is the constructor, then the
  \<^verbatim>\<open>"id"\<close> or \<^verbatim>\<open>"paraId"\<close> field (and \<^verbatim>\<open>"tags"\<close>), last the \<^verbatim>\<open>"message"\<close>. Python does not fix
  the order in which a set is iterated; the model iterates in insertion order, and the
  theorems speak of the issues as a set.
\<close>

datatype issue =
  Unique_ids string "string list" string
| Comment_consistency string string
| Comment_artifacts string string

definition ANNOTATION_TAGS :: "string list" where
  "ANNOTATION_TAGS =
     [''w:bookmarkStart'', ''w:bookmarkEnd'',
      ''w:commentRangeStart'', ''w:commentRangeEnd'', ''w:commentReference'',
      ''w:ins'', ''w:del'', ''w:rPrChange'', ''w:pPrChange'', ''w:sectPrChange'',
      ''w:tblPrChange'', ''w:trPrChange'', ''w:tcPrChange'', ''w:tblGridChange'']"

subsection \<open>Check 1: unique \<^verbatim>\<open>w:id\<close> values across annotation types\<close>

definition seen_el :: "string \<Rightarrow> node \<Rightarrow> (string \<times> string list) list \<Rightarrow> (string \<times> string list) list" where
  "seen_el tg el seen =
     (let val = getAttribute el ''w:id'' in
      if val = [] then seen else setdefault_append val tg seen)"

definition seen_ids :: "document \<Rightarrow> (string \<times> string list) list" where
  "seen_ids doc =
     fold (\<lambda>tg seen. fold (seen_el tg) (get_elements_by_tag doc tg) seen) ANNOTATION_TAGS []"

definition unique_type :: "string \<Rightarrow> string" where
  "unique_type t =
     (if t \<in> {''w:bookmarkStart'', ''w:bookmarkEnd''} then ''bookmark''
      else if t \<in> {''w:commentRangeStart'', ''w:commentRangeEnd'', ''w:commentReference''}
      then ''comment''
      else ''change'')"

fun join :: "string \<Rightarrow> string list \<Rightarrow> string" where
  "join sep [] = []"
| "join sep [x] = x"
| "join sep (x # y # ys) = x @ sep @ join sep (y # ys)"

definition unique_ids_issue :: "string \<Rightarrow> string list \<Rightarrow> issue" where
  "unique_ids_issue id_val tags =
     Unique_ids id_val tags
       (''ID '' @ id_val @ '' shared across annotation types: '' @ join '', '' tags)"

definition check_unique_ids :: "package \<Rightarrow> issue list" where
  "check_unique_ids pkg =
     (case parse_xml pkg doc_path of
        None \<Rightarrow> []
      | Some doc \<Rightarrow>
          map (\<lambda>(id_val, tags). unique_ids_issue id_val tags)
            (filter (\<lambda>(id_val, tags).
                       length tags > 1 \<and> length (remdups (map unique_type tags)) > 1)
               (seen_ids doc)))"

subsection \<open>Check 2: comment range/reference consistency\<close>

text \<open>The set of the non-empty \<^verbatim>\<open>w:id\<close> values on the elements of one tag.\<close>

definition id_values :: "document \<Rightarrow> string \<Rightarrow> string list" where
  "id_values doc tg =
     remdups (filter (\<lambda>val. val \<noteq> [])
                (map (\<lambda>el. getAttribute el ''w:id'') (get_elements_by_tag doc tg)))"

definition set_minus :: "'a list \<Rightarrow> 'a list \<Rightarrow> 'a list" where
  "set_minus xs ys = filter (\<lambda>x. x \<notin> set ys) xs"

definition start_without_end :: "string \<Rightarrow> issue" where
  "start_without_end cid =
     Comment_consistency cid (''commentRangeStart '' @ cid @ '' has no matching commentRangeEnd'')"

definition start_without_reference :: "string \<Rightarrow> issue" where
  "start_without_reference cid =
     Comment_consistency cid (''commentRangeStart '' @ cid @ '' has no matching commentReference'')"

definition end_without_start :: "string \<Rightarrow> issue" where
  "end_without_start cid =
     Comment_consistency cid (''commentRangeEnd '' @ cid @ '' has no matching commentRangeStart'')"

definition reference_without_start :: "string \<Rightarrow> issue" where
  "reference_without_start cid =
     Comment_consistency cid (''commentReference '' @ cid @ '' has no matching commentRangeStart'')"

definition check_comment_consistency :: "package \<Rightarrow> issue list" where
  "check_comment_consistency pkg =
     (case parse_xml pkg doc_path of
        None \<Rightarrow> []
      | Some doc \<Rightarrow>
          let starts = id_values doc ''w:commentRangeStart'';
              ends = id_values doc ''w:commentRangeEnd'';
              refs = id_values doc ''w:commentReference''
          in map start_without_end (set_minus starts ends) @
             map start_without_reference (set_minus starts refs) @
             map end_without_start (set_minus ends starts) @
             map reference_without_start (set_minus refs starts))"

subsection \<open>Check 3: comment artifact cross-references\<close>

definition comment_para_ids :: "document \<Rightarrow> string list" where
  "comment_para_ids comments_doc =
     remdups (filter (\<lambda>para_id. para_id \<noteq> [])
       (map para_id_of
         (concat (map (\<lambda>comment_el. getElementsByTagName comment_el ''w:p'')
                    (get_elements_by_tag comments_doc ''w:comment'')))))"

text \<open>The paraIds of the entries of a metadata part; empty when the part is absent or does
  not parse.\<close>

definition part_para_ids :: "package \<Rightarrow> string \<Rightarrow> string \<Rightarrow> string \<Rightarrow> string list" where
  "part_para_ids pkg path tg attr =
     (if path_exists pkg path then
        case parse_xml pkg path of
          None \<Rightarrow> []
        | Some d \<Rightarrow>
            remdups (filter (\<lambda>para_id. para_id \<noteq> [])
                       (map (\<lambda>el. getAttribute el attr) (get_elements_by_tag d tg)))
      else [])"

definition check_comment_artifacts :: "package \<Rightarrow> issue list" where
  "check_comment_artifacts pkg =
     (if \<not> path_exists pkg comments_path then []
      else case parse_xml pkg comments_path of
        None \<Rightarrow> []
      | Some comments_doc \<Rightarrow>
          let cpids = comment_para_ids comments_doc;
              ext_para_ids = part_para_ids pkg ext_path ''w15:commentEx'' ''w15:paraId'';
              ids_para_ids = part_para_ids pkg ids_path ''w16cid:commentId'' ''w16cid:paraId''
          in map (\<lambda>pid. Comment_artifacts pid
                     (''commentsExtended has paraId '' @ pid @ '' with no matching w:comment''))
               (set_minus ext_para_ids cpids) @
             map (\<lambda>pid. Comment_artifacts pid
                     (''commentsIds has paraId '' @ pid @ '' with no matching w:comment''))
               (set_minus ids_para_ids cpids) @
             (if path_exists pkg ext_path
              then map (\<lambda>pid. Comment_artifacts pid
                          (''w:comment paraId '' @ pid @ '' missing from commentsExtended''))
                     (set_minus cpids ext_para_ids)
              else []) @
             (if path_exists pkg ids_path
              then map (\<lambda>pid. Comment_artifacts pid
                          (''w:comment paraId '' @ pid @ '' missing from commentsIds''))
                     (set_minus cpids ids_para_ids)
              else []))"

section \<open>Example packages\<close>

text \<open>Extended metadata with an entry for paraId \<open>0A1B\<close>, and no \<^verbatim>\<open>comments.xml\<close>.\<close>

definition pkg_no_comments :: package where
  "pkg_no_comments =
     \<lparr>files =
        [(''word/commentsExtended.xml'',
          Xml [Elem 0 ''w15:commentsEx'' []
                 [Elem 1 ''w15:commentEx'' [(''w15:paraId'', ''0A1B'')] []]]),
         (''word/commentsIds.xml'',
          Xml [Elem 0 ''w16cid:commentsIds'' []
                 [Elem 1 ''w16cid:commentId'' [(''w16cid:paraId'', ''0A1B'')] []]])],
      written = []\<rparr>"

text \<open>A document whose only comment anchor is a \<^verbatim>\<open>w:commentRangeEnd\<close> with id 1.\<close>

definition doc_end_only :: document where
  "doc_end_only =
     [Elem 0 ''w:document'' [] [Elem 1 ''w:commentRangeEnd'' [(''w:id'', ''1'')] []]]"

definition pkg_end_only :: package where
  "pkg_end_only = \<lparr>files = [(''word/document.xml'', Xml doc_end_only)], written = []\<rparr>"

text \<open>A document with one complete comment (id 2) and a start without end and reference
  (id 3).\<close>

definition doc_ranges :: document where
  "doc_ranges =
     [Elem 0 ''w:document'' []
        [Elem 1 ''w:commentRangeStart'' [(''w:id'', ''2'')] [],
         Elem 2 ''w:commentRangeEnd'' [(''w:id'', ''2'')] [],
         Elem 3 ''w:commentReference'' [(''w:id'', ''2'')] [],
         Elem 4 ''w:commentRangeStart'' [(''w:id'', ''3'')] []]]"

definition pkg_ranges :: package where
  "pkg_ranges = \<lparr>files = [(''word/document.xml'', Xml doc_ranges)], written = []\<rparr>"

text \<open>Scenario 2 of the specification: two \<^verbatim>\<open>Override\<close> nodes for the same part, and a
  relationship manifest that lists one relationship twice.\<close>

definition ct_dups :: document where
  "ct_dups =
     [Elem 0 ''Types'' []
        [Elem 1 ''Default'' [(''Extension'', ''xml''), (''ContentType'', ''application/xml'')] [],
         Elem 2 ''Override'' [(''PartName'', ''/word/document.xml'')] [],
         Elem 3 ''Override'' [(''PartName'', ''/word/document.xml'')] []]]"

definition rels_dups :: document where
  "rels_dups =
     [Elem 0 ''Relationships'' []
        [Elem 1 ''Relationship'' [(''Id'', ''rId1''), (''Type'', ''t''), (''Target'', ''a.xml'')] [],
         Elem 2 ''Relationship'' [(''Id'', ''rId2''), (''Type'', ''t''), (''Target'', ''a.xml'')] []]]"

definition pkg_dups :: package where
  "pkg_dups =
     \<lparr>files = [(''[Content_Types].xml'', Xml ct_dups), (''_rels/.rels'', Xml rels_dups)],
      written = []\<rparr>"

definition pkg_dups_after :: package where
  "pkg_dups_after =
     \<lparr>files =
        [(''[Content_Types].xml'',
          Xml [Elem 0 ''Types'' []
                 [Elem 1 ''Default'' [(''Extension'', ''xml''), (''ContentType'', ''application/xml'')] [],
                  Elem 2 ''Override'' [(''PartName'', ''/word/document.xml'')] []]]),
         (''_rels/.rels'',
          Xml [Elem 0 ''Relationships'' []
                 [Elem 1 ''Relationship''
                    [(''Id'', ''rId1''), (''Type'', ''t''), (''Target'', ''a.xml'')] []]])],
      written = [''[Content_Types].xml'', ''_rels/.rels'']\<rparr>"

text \<open>A content-types manifest in which a \<^verbatim>\<open>Default\<close> node lies inside a duplicate
  \<^verbatim>\<open>Override\<close> node.\<close>

definition ct_nested :: document where
  "ct_nested =
     [Elem 0 ''Types'' []
        [Elem 1 ''Override'' [(''PartName'', ''/word/document.xml'')] [],
         Elem 2 ''Override'' [(''PartName'', ''/word/document.xml'')]
           [Elem 3 ''Default'' [(''Extension'', ''xml'')] []],
         Elem 4 ''Default'' [(''Extension'', ''xml'')] []]]"

definition pkg_nested :: package where
  "pkg_nested = \<lparr>files = [(''[Content_Types].xml'', Xml ct_nested)], written = []\<rparr>"

text \<open>Scenario 3 of the specification: one comment with paragraph \<open>0A1B\<close>; the extended
  metadata has an entry for it and an entry for the unknown paragraph \<open>FFFF\<close>.\<close>

definition comments_one :: document where
  "comments_one =
     [Elem 0 ''w:comments'' []
        [Elem 1 ''w:comment'' [(''w:id'', ''0'')]
           [Elem 2 ''w:p'' [(''w14:paraId'', ''0A1B'')] [Text ''note'']]]]"

definition pkg_orphan :: package where
  "pkg_orphan =
     \<lparr>files =
        [(''word/comments.xml'', Xml comments_one),
         (''word/commentsExtended.xml'',
          Xml [Elem 0 ''w15:commentsEx'' []
                 [Elem 1 ''w15:commentEx'' [(''w15:paraId'', ''0A1B''), (''w15:durableId'', ''D1'')] [],
                  Elem 2 ''w15:commentEx'' [(''w15:paraId'', ''FFFF'')] []]]),
         (''word/commentsExtensible.xml'',
          Xml [Elem 0 ''w16cex:commentsExtensible'' []
                 [Elem 1 ''w16cex:commentExtensible'' [(''w16cex:durableId'', ''D1'')] [],
                  Elem 2 ''w16cex:commentExtensible'' [(''w16cex:durableId'', ''D9'')] []]])],
      written = []\<rparr>"

definition pkg_orphan_after :: package where
  "pkg_orphan_after =
     \<lparr>files =
        [(''word/comments.xml'', Xml comments_one),
         (''word/commentsExtended.xml'',
          Xml [Elem 0 ''w15:commentsEx'' []
                 [Elem 1 ''w15:commentEx'' [(''w15:paraId'', ''0A1B''), (''w15:durableId'', ''D1'')] []]]),
         (''word/commentsExtensible.xml'',
          Xml [Elem 0 ''w16cex:commentsExtensible'' []
                 [Elem 1 ''w16cex:commentExtensible'' [(''w16cex:durableId'', ''D1'')] []]])],
      written = [''word/commentsExtended.xml'', ''word/commentsExtensible.xml'']\<rparr>"

text \<open>The same comment; no extended entry carries a durable id, and the extensible part
  has an entry with the durable id \<open>D9\<close>.\<close>

definition extensible_d9 :: document where
  "extensible_d9 =
     [Elem 0 ''w16cex:commentsExtensible'' []
        [Elem 1 ''w16cex:commentExtensible'' [(''w16cex:durableId'', ''D9'')] []]]"

definition pkg_unlinked :: package where
  "pkg_unlinked =
     \<lparr>files =
        [(''word/comments.xml'', Xml comments_one),
         (''word/commentsExtended.xml'',
          Xml [Elem 0 ''w15:commentsEx'' []
                 [Elem 1 ''w15:commentEx'' [(''w15:paraId'', ''0A1B'')] []]]),
         (''word/commentsExtensible.xml'', Xml extensible_d9)],
      written = []\<rparr>"

text \<open>Scenario 1 of the specification: a bookmark and a tracked insertion both carry id 5;
  the text run inside the insertion has leading and trailing blanks.\<close>

definition doc_collide :: document where
  "doc_collide =
     [Elem 0 ''w:document'' []
        [Elem 1 ''w:bookmarkStart'' [(''w:id'', ''5''), (''w:name'', ''here'')] [],
         Elem 2 ''w:ins'' [(''w:id'', ''5'')]
           [Elem 3 ''w:r'' [] [Elem 4 ''w:t'' [] [Text '' foo '']]],
         Elem 5 ''w:bookmarkEnd'' [(''w:id'', ''5'')] []]]"

definition doc_collide_after :: document where
  "doc_collide_after =
     [Elem 0 ''w:document'' []
        [Elem 1 ''w:bookmarkStart'' [(''w:id'', ''5''), (''w:name'', ''here'')] [],
         Elem 2 ''w:ins'' [(''w:id'', ''6'')]
           [Elem 3 ''w:r'' [] [Elem 4 ''w:t'' [(''xml:space'', ''preserve'')] [Text '' foo '']]],
         Elem 5 ''w:bookmarkEnd'' [(''w:id'', ''5'')] []]]"

definition pkg_collide :: package where
  "pkg_collide = \<lparr>files = [(''word/document.xml'', Xml doc_collide)], written = []\<rparr>"

text \<open>A comment anchor and a tracked insertion share id 5; there is no bookmark.\<close>

definition doc_comment_change :: document where
  "doc_comment_change =
     [Elem 0 ''w:document'' []
        [Elem 1 ''w:commentRangeStart'' [(''w:id'', ''5'')] [],
         Elem 2 ''w:ins'' [(''w:id'', ''5'')] [],
         Elem 3 ''w:commentRangeEnd'' [(''w:id'', ''5'')] []]]"

definition comments_five :: document where
  "comments_five =
     [Elem 0 ''w:comments'' []
        [Elem 1 ''w:comment'' [(''w:id'', ''5'')]
           [Elem 2 ''w:p'' [(''w14:paraId'', ''0A1B'')] []]]]"

definition pkg_comment_change :: package where
  "pkg_comment_change =
     \<lparr>files = [(''word/document.xml'', Xml doc_comment_change),
               (''word/comments.xml'', Xml comments_five)],
      written = []\<rparr>"

definition pkg_comment_change_after :: package where
  "pkg_comment_change_after =
     \<lparr>files =
        [(''word/document.xml'',
          Xml [Elem 0 ''w:document'' []
                 [Elem 1 ''w:commentRangeStart'' [(''w:id'', ''6'')] [],
                  Elem 2 ''w:ins'' [(''w:id'', ''7'')] [],
                  Elem 3 ''w:commentRangeEnd'' [(''w:id'', ''6'')] []]]),
         (''word/comments.xml'',
          Xml [Elem 0 ''w:comments'' []
                 [Elem 1 ''w:comment'' [(''w:id'', ''6'')]
                    [Elem 2 ''w:p'' [(''w14:paraId'', ''0A1B'')] []]]])],
      written = [''word/document.xml'', ''word/comments.xml'']\<rparr>"

text \<open>A bookmark and a tracked insertion that share the non-integer id \<open>abc\<close>.\<close>

definition doc_abc :: document where
  "doc_abc =
     [Elem 0 ''w:document'' []
        [Elem 1 ''w:bookmarkStart'' [(''w:id'', ''abc'')] [],
         Elem 2 ''w:ins'' [(''w:id'', ''abc'')] [],
         Elem 3 ''w:del'' [] []]]"

definition pkg_abc :: package where
  "pkg_abc = \<lparr>files = [(''word/document.xml'', Xml doc_abc)], written = []\<rparr>"

text \<open>A bookmark and a comment anchor share id 5; \<^verbatim>\<open>comments.xml\<close> has no entry with
  that id.\<close>

definition doc_bookmark_comment :: document where
  "doc_bookmark_comment =
     [Elem 0 ''w:document'' []
        [Elem 1 ''w:bookmarkStart'' [(''w:id'', ''5'')] [],
         Elem 2 ''w:commentRangeStart'' [(''w:id'', ''5'')] []]]"

definition comments_nine :: document where
  "comments_nine =
     [Elem 0 ''w:comments'' [] [Elem 1 ''w:comment'' [(''w:id'', ''9'')] []]]"

definition pkg_stale_comments :: package where
  "pkg_stale_comments =
     \<lparr>files = [(''word/document.xml'', Xml doc_bookmark_comment),
               (''word/comments.xml'', Xml comments_nine)],
      written = []\<rparr>"






section \<open>Properties of the DOM operations\<close>

text \<open>Attribute rewrites are maps over the elements; removals prune subtrees. These two
  views are used in the proofs only.\<close>

fun map_attrs :: "(nat \<Rightarrow> string \<Rightarrow> (string \<times> string) list \<Rightarrow> (string \<times> string) list)
                   \<Rightarrow> node list \<Rightarrow> node list" where
  "map_attrs f [] = []"
| "map_attrs f (Text s # ns) = Text s # map_attrs f ns"
| "map_attrs f (Elem r t a ks # ns) = Elem r t (f r t a) (map_attrs f ks) # map_attrs f ns"

definition map_el :: "(nat \<Rightarrow> string \<Rightarrow> (string \<times> string) list \<Rightarrow> (string \<times> string) list)
                   \<Rightarrow> node \<Rightarrow> node" where
  "map_el f e = Elem (ref e) (tag e) (f (ref e) (tag e) (attrs e)) (map_attrs f (kids e))"

fun prune :: "nat set \<Rightarrow> node list \<Rightarrow> node list" where
  "prune R [] = []"
| "prune R (Text s # ns) = Text s # prune R ns"
| "prune R (Elem r t a ks # ns) =
     (if r \<in> R then prune R ns else Elem r t a (prune R ks) # prune R ns)"

text \<open>The elements outside the subtrees rooted at the references in \<open>R\<close>.\<close>

fun survivors :: "nat set \<Rightarrow> node list \<Rightarrow> node list" where
  "survivors R [] = []"
| "survivors R (Text s # ns) = survivors R ns"
| "survivors R (Elem r t a ks # ns) =
     (if r \<in> R then survivors R ns else Elem r t a ks # survivors R ks @ survivors R ns)"

definition prune_el :: "nat set \<Rightarrow> node \<Rightarrow> node" where
  "prune_el R e = Elem (ref e) (tag e) (attrs e) (prune R (kids e))"

lemma subseq_distinct: "subseq xs ys \<Longrightarrow> distinct ys \<Longrightarrow> distinct xs"
  by (induction rule: list_emb.induct) (auto dest: list_emb_set)

lemma elements_append [simp]: "elements (xs @ ys) = elements xs @ elements ys"
  by (induction xs rule: elements.induct) auto

lemma elements_is_Elem: "e \<in> set (elements doc) \<Longrightarrow> is_Elem e"
  by (induction doc rule: elements.induct) auto

lemma elements_list_ex: "e \<in> set (elements doc) \<Longrightarrow> list_ex is_Elem doc"
  by (induction doc rule: elements.induct) auto

lemma elements_map_attrs: "elements (map_attrs f doc) = map (map_el f) (elements doc)"
  by (induction doc rule: elements.induct) (auto simp: map_el_def)

lemma map_el_sel [simp]:
  "ref (map_el f e) = ref e" "tag (map_el f e) = tag e"
  "attrs (map_el f e) = f (ref e) (tag e) (attrs e)"
  "kids (map_el f e) = map_attrs f (kids e)"
  by (simp_all add: map_el_def)

lemma setAttribute_map_attrs:
  "setAttribute r name v doc =
     map_attrs (\<lambda>r' t a. if r' = r then AList.update name v a else a) doc"
  by (induction doc rule: elements.induct) auto

lemma map_attrs_comp:
  "map_attrs g (map_attrs f doc) = map_attrs (\<lambda>r t a. g r t (f r t a)) doc"
  by (induction doc rule: elements.induct) auto

lemma map_attrs_cong:
  "(\<And>e. e \<in> set (elements doc) \<Longrightarrow> f (ref e) (tag e) (attrs e) = g (ref e) (tag e) (attrs e))
   \<Longrightarrow> map_attrs f doc = map_attrs g doc"
proof (induction doc rule: elements.induct)
  case (3 r t a ks ns)
  have "f r t a = g r t a" using 3(3) [of "Elem r t a ks"] by simp
  moreover have "map_attrs f ks = map_attrs g ks" using 3 by auto
  moreover have "map_attrs f ns = map_attrs g ns" using 3 by auto
  ultimately show ?case by simp
qed auto

lemma map_attrs_ident: "map_attrs (\<lambda>r t a. a) doc = doc"
  by (induction doc rule: elements.induct) auto

lemma map_attrs_same:
  "(\<And>e. e \<in> set (elements doc) \<Longrightarrow> f (ref e) (tag e) (attrs e) = attrs e)
   \<Longrightarrow> map_attrs f doc = doc"
  using map_attrs_cong [of doc f "\<lambda>r t a. a"] by (simp add: map_attrs_ident)

lemma list_ex_is_Elem_map_attrs [simp]:
  "list_ex is_Elem (map_attrs f doc) = list_ex is_Elem doc"
  by (induction doc rule: elements.induct) auto

lemma get_elements_by_tag_map_attrs:
  "get_elements_by_tag (map_attrs f doc) tg = map (map_el f) (get_elements_by_tag doc tg)"
  by (simp add: get_elements_by_tag_def elements_map_attrs filter_map comp_def)

lemma wf_doc_map_attrs [simp]: "wf_doc (map_attrs f doc) = wf_doc doc"
  by (simp add: wf_doc_def elements_map_attrs comp_def)

subsection \<open>Removal\<close>

lemma removeChild_prune: "removeChild r doc = prune {r} doc"
  by (induction doc rule: elements.induct) auto

lemma prune_prune: "prune R (prune S doc) = prune (R \<union> S) doc"
  by (induction doc rule: elements.induct) auto

lemma prune_empty [simp]: "prune {} doc = doc"
  by (induction doc rule: elements.induct) auto

lemma removeChild_of_prune: "removeChild r (prune R doc) = prune (insert r R) doc"
  by (simp add: removeChild_prune prune_prune)

lemma elements_prune: "elements (prune R doc) = map (prune_el R) (survivors R doc)"
  by (induction doc rule: elements.induct) (auto simp: prune_el_def)

lemma prune_el_sel [simp]:
  "ref (prune_el R e) = ref e" "tag (prune_el R e) = tag e" "attrs (prune_el R e) = attrs e"
  by (simp_all add: prune_el_def)

lemma getAttribute_prune_el [simp]: "getAttribute (prune_el R e) name = getAttribute e name"
  by (simp add: getAttribute_def)

lemma survivors_subseq: "subseq (survivors R doc) (filter (\<lambda>e. ref e \<notin> R) (elements doc))"
proof (induction doc rule: elements.induct)
  case (3 r t a ks ns)
  show ?case
  proof (cases "r \<in> R")
    case True
    have "subseq (survivors R ns)
            (filter (\<lambda>e. ref e \<notin> R) (elements ks) @ filter (\<lambda>e. ref e \<notin> R) (elements ns))"
      using "3.IH"(2) by (rule subseq_drop_many)
    with True show ?thesis by simp
  next
    case False
    with "3.IH" show ?thesis by (auto intro: list_emb_append_mono)
  qed
qed auto

lemma survivors_empty [simp]: "survivors {} doc = elements doc"
  by (induction doc rule: elements.induct) auto

lemma survivors_id: "ref ` set (elements doc) \<inter> R = {} \<Longrightarrow> survivors R doc = elements doc"
  by (induction doc rule: elements.induct) (auto simp: image_Un Int_Un_distrib2)

lemma prune_id: "ref ` set (elements doc) \<inter> R = {} \<Longrightarrow> prune R doc = doc"
  by (induction doc rule: elements.induct) (auto simp: image_Un Int_Un_distrib2)

lemma length_survivors_less:
  "ref ` set (elements doc) \<inter> R \<noteq> {} \<Longrightarrow> length (survivors R doc) < length (elements doc)"
proof (induction doc rule: elements.induct)
  case (3 r t a ks ns)
  have le: "length (survivors R d) \<le> length (elements d)" for d
  proof -
    have "length (survivors R d) \<le> length (filter (\<lambda>e. ref e \<notin> R) (elements d))"
      using survivors_subseq [of R d] by (rule list_emb_length)
    also have "\<dots> \<le> length (elements d)" by simp
    finally show ?thesis .
  qed
  show ?case
  proof (cases "r \<in> R")
    case True
    then show ?thesis using le [of ns] by simp
  next
    case False
    with "3.prems" have "ref ` set (elements ks) \<inter> R \<noteq> {} \<or> ref ` set (elements ns) \<inter> R \<noteq> {}"
      by auto
    then show ?thesis
      using "3.IH" False le [of ks] le [of ns] by fastforce
  qed
qed auto

lemma prune_changes: "ref ` set (elements doc) \<inter> R \<noteq> {} \<Longrightarrow> prune R doc \<noteq> doc"
proof
  assume a: "ref ` set (elements doc) \<inter> R \<noteq> {}" and "prune R doc = doc"
  then have "length (elements (prune R doc)) = length (elements doc)" by simp
  with length_survivors_less [OF a] show False by (simp add: elements_prune)
qed

lemma get_elements_by_tag_prune:
  "get_elements_by_tag (prune R doc) tg =
     map (prune_el R) (filter (\<lambda>e. tag e = tg) (survivors R doc))"
  by (simp add: get_elements_by_tag_def elements_prune filter_map comp_def)

lemma wf_doc_prune: "wf_doc doc \<Longrightarrow> wf_doc (prune R doc)"
proof -
  assume "wf_doc doc"
  then have "distinct (map ref (filter (\<lambda>e. ref e \<notin> R) (elements doc)))"
    by (simp add: wf_doc_def distinct_map_filter)
  moreover have "subseq (map ref (survivors R doc))
                    (map ref (filter (\<lambda>e. ref e \<notin> R) (elements doc)))"
    using survivors_subseq [of R doc] by (rule subseq_map)
  ultimately have "distinct (map ref (survivors R doc))"
    by (rule subseq_distinct [rotated])
  then show ?thesis by (simp add: wf_doc_def elements_prune comp_def)
qed

section \<open>The removal loops\<close>

text \<open>The elements a dedup loop removes (their key was seen before) and the ones it keeps.\<close>

fun dups :: "(node \<Rightarrow> 'k) \<Rightarrow> node list \<Rightarrow> 'k set \<Rightarrow> node list" where
  "dups key [] seen = []"
| "dups key (el # els) seen =
     (if key el \<in> seen then el # dups key els seen else dups key els (insert (key el) seen))"

fun firsts :: "(node \<Rightarrow> 'k) \<Rightarrow> node list \<Rightarrow> 'k set \<Rightarrow> node list" where
  "firsts key [] seen = []"
| "firsts key (el # els) seen =
     (if key el \<in> seen then firsts key els seen else el # firsts key els (insert (key el) seen))"

lemma subseq_set_mono: "subseq xs ys \<Longrightarrow> set xs \<subseteq> set ys"
  by (induction rule: list_emb.induct) auto

lemma dedup_loop_prune:
  "dedup_loop key els seen (prune R doc, n) =
     (prune (R \<union> ref ` set (dups key els seen)) doc, n + length (dups key els seen))"
proof (induction els arbitrary: seen R n)
  case Nil
  show ?case by simp
next
  case (Cons el els)
  show ?case
  proof (cases "key el \<in> seen")
    case True
    have "R \<union> insert (ref el) (ref ` set (dups key els seen))
            = insert (ref el) R \<union> ref ` set (dups key els seen)" by auto
    with True show ?thesis
      using Cons.IH [of seen "insert (ref el) R" "n + 1"] by (simp add: removeChild_of_prune)
  next
    case False
    then show ?thesis using Cons.IH [of "insert (key el) seen" R n] by simp
  qed
qed

lemma dedup_loop_eq:
  "dedup_loop key els seen (doc, n) =
     (prune (ref ` set (dups key els seen)) doc, n + length (dups key els seen))"
  using dedup_loop_prune [of key els seen "{}" doc n] by simp

lemma set_dups_subset: "set (dups key els seen) \<subseteq> set els"
  by (induction els arbitrary: seen) auto

lemma set_firsts_subset: "set (firsts key els seen) \<subseteq> set els"
  by (induction els arbitrary: seen) auto

lemma firsts_keys: "key ` set (firsts key els seen) = key ` set els - seen"
  by (induction els arbitrary: seen) auto

lemma distinct_firsts: "distinct (map key (firsts key els seen))"
proof (induction els arbitrary: seen)
  case (Cons el els)
  have "key el \<notin> key ` set (firsts key els (insert (key el) seen))"
    by (simp add: firsts_keys)
  with Cons show ?case by auto
qed simp

lemma length_dups_firsts: "length (dups key els seen) + length (firsts key els seen) = length els"
  by (induction els arbitrary: seen) auto

lemma length_dups: "length (dups key els seen) = length els - card (key ` set els - seen)"
proof -
  have "card (set (map key (firsts key els seen))) = length (map key (firsts key els seen))"
    by (rule distinct_card [OF distinct_firsts])
  then have "length (firsts key els seen) = card (key ` set (firsts key els seen))"
    by simp
  then have "length (firsts key els seen) = card (key ` set els - seen)"
    by (simp add: firsts_keys)
  with length_dups_firsts [of key els seen] show ?thesis by simp
qed


lemma not_removed_subseq_firsts:
  "subseq (filter (\<lambda>e. ref e \<notin> ref ` set (dups key els seen)) els) (firsts key els seen)"
proof (induction els arbitrary: seen)
  case (Cons el els)
  show ?case
  proof (cases "key el \<in> seen")
    case True
    have "filter (\<lambda>e. ref e \<noteq> ref el \<and> ref e \<notin> ref ` set (dups key els seen)) els
            = filter (\<lambda>e. ref e \<noteq> ref el) (filter (\<lambda>e. ref e \<notin> ref ` set (dups key els seen)) els)"
      by (simp add: conj_commute)
    moreover have "subseq (filter (\<lambda>e. ref e \<noteq> ref el)
                      (filter (\<lambda>e. ref e \<notin> ref ` set (dups key els seen)) els))
                    (firsts key els seen)"
      by (rule subseq_order.order_trans [OF subseq_filter_left Cons.IH [of seen]])
    ultimately show ?thesis using True by simp
  next
    case False
    then show ?thesis using Cons.IH [of "insert (key el) seen"] by auto
  qed
qed simp

text \<open>An element of the result that is the first of its key in the list \<open>els\<close>: same object,
  same tag and attributes, and no earlier element of \<open>els\<close> has its key.\<close>

definition first_occurrence :: "(node \<Rightarrow> 'k) \<Rightarrow> node list \<Rightarrow> node \<Rightarrow> bool" where
  "first_occurrence key els e' =
     (\<exists>i \<in> {0..<length els}.
        ref (els ! i) = ref e' \<and> tag (els ! i) = tag e' \<and> attrs (els ! i) = attrs e' \<and>
        (\<forall>j \<in> {0..<i}. key (els ! j) \<noteq> key (els ! i)))"

lemma firsts_first:
  "e \<in> set (firsts key els seen) \<Longrightarrow>
     \<exists>i<length els. els ! i = e \<and> key e \<notin> seen \<and> (\<forall>j<i. key (els ! j) \<noteq> key e)"
proof (induction els arbitrary: seen)
  case (Cons el els)
  show ?case
  proof (cases "key el \<notin> seen \<and> e = el")
    case True
    then have "(el # els) ! 0 = e \<and> key e \<notin> seen \<and> (\<forall>j<0. key ((el # els) ! j) \<noteq> key e)"
      by simp
    then show ?thesis by blast
  next
    case False
    then have "e \<in> set (firsts key els (if key el \<in> seen then seen else insert (key el) seen))"
      using Cons.prems by (auto split: if_splits)
    from Cons.IH [OF this] obtain i where i: "i < length els" "els ! i = e"
      "key e \<notin> (if key el \<in> seen then seen else insert (key el) seen)"
      "\<forall>j<i. key (els ! j) \<noteq> key e" by blast
    have k: "key e \<notin> seen" "key el \<noteq> key e" using i(3) by (auto split: if_splits)
    have "\<forall>j<Suc i. key ((el # els) ! j) \<noteq> key e"
    proof (intro allI impI)
      fix j assume "j < Suc i"
      then show "key ((el # els) ! j) \<noteq> key e"
        using i(4) k(2) by (cases j) auto
    qed
    with i k have "Suc i < length (el # els) \<and> (el # els) ! Suc i = e \<and> key e \<notin> seen \<and>
                     (\<forall>j<Suc i. key ((el # els) ! j) \<noteq> key e)" by simp
    then show ?thesis by blast
  qed
qed simp

text \<open>What one dedup loop leaves of the elements of its tag, for a key read from the
  attributes.\<close>

lemma dedup_survivors:
  assumes "dedup_loop key (get_elements_by_tag doc tg) {} (doc, n) = (doc', n')"
  shows "\<exists>es. get_elements_by_tag doc' tg = map (prune_el (ref ` set (dups key (get_elements_by_tag doc tg) {}))) es \<and>
              subseq es (firsts key (get_elements_by_tag doc tg) {})"
proof -
  let ?els = "get_elements_by_tag doc tg"
  let ?R = "ref ` set (dups key ?els {})"
  have d: "doc' = prune ?R doc" using assms by (simp add: dedup_loop_eq)
  let ?es = "filter (\<lambda>e. tag e = tg) (survivors ?R doc)"
  have "subseq ?es (filter (\<lambda>e. tag e = tg) (filter (\<lambda>e. ref e \<notin> ?R) (elements doc)))"
    using survivors_subseq [of ?R doc] by (rule subseq_filter)
  also have "filter (\<lambda>e. tag e = tg) (filter (\<lambda>e. ref e \<notin> ?R) (elements doc))
               = filter (\<lambda>e. ref e \<notin> ?R) ?els"
    by (simp add: get_elements_by_tag_def conj_commute)
  finally have "subseq ?es (filter (\<lambda>e. ref e \<notin> ?R) ?els)" .
  then have "subseq ?es (firsts key ?els {})"
    by (rule subseq_order.order_trans [OF _ not_removed_subseq_firsts])
  moreover have "get_elements_by_tag doc' tg = map (prune_el ?R) ?es"
    by (simp add: d get_elements_by_tag_prune)
  ultimately show ?thesis by blast
qed

lemma subseq_pruned_distinct:
  assumes "\<And>R e. key (prune_el R e) = key e"
    and "subseq es fs" and "distinct (map key fs)"
  shows "distinct (map key (map (prune_el R) es))"
proof -
  have "map key (map (prune_el R) es) = map key es" using assms(1) by simp
  moreover have "subseq (map key es) (map key fs)" using assms(2) by (rule subseq_map)
  ultimately show ?thesis using subseq_distinct [OF _ assms(3), of "map key es"] by metis
qed

lemma dedup_loop_distinct:
  assumes "\<And>R e. key (prune_el R e) = key e"
    and "dedup_loop key (get_elements_by_tag doc tg) {} (doc, n) = (doc', n')"
  shows "distinct (map key (get_elements_by_tag doc' tg))"
proof -
  from dedup_survivors [OF assms(2)] obtain es where
    es: "get_elements_by_tag doc' tg =
           map (prune_el (ref ` set (dups key (get_elements_by_tag doc tg) {}))) es"
        "subseq es (firsts key (get_elements_by_tag doc tg) {})" by blast
  show ?thesis
    unfolding es(1) using assms(1) es(2) distinct_firsts by (rule subseq_pruned_distinct)
qed

lemma dedup_loop_first_occurrence:
  assumes "dedup_loop key (get_elements_by_tag doc tg) {} (doc, n) = (doc', n')"
    and "e' \<in> set (get_elements_by_tag doc' tg)"
  shows "first_occurrence key (get_elements_by_tag doc tg) e'"
proof -
  let ?els = "get_elements_by_tag doc tg"
  from dedup_survivors [OF assms(1)] obtain es where
    es: "get_elements_by_tag doc' tg = map (prune_el (ref ` set (dups key ?els {}))) es"
        "subseq es (firsts key ?els {})" by blast
  from assms(2) es(1) obtain e where e: "e \<in> set es" "e' = prune_el (ref ` set (dups key ?els {})) e"
    by auto
  from e(1) es(2) have "e \<in> set (firsts key ?els {})"
    using subseq_set_mono by blast
  from firsts_first [OF this] obtain i where
    i: "i < length ?els" "?els ! i = e" "\<forall>j<i. key (?els ! j) \<noteq> key e" by blast
  show ?thesis
    unfolding first_occurrence_def using i e(2) by (intro bexI [of _ i]) auto
qed

lemma dedup_loop_subseq_refs:
  assumes "dedup_loop key (get_elements_by_tag doc tg) {} (doc, n) = (doc', n')"
  shows "subseq (map ref (get_elements_by_tag doc' tg)) (map ref (get_elements_by_tag doc tg))"
proof -
  let ?R = "ref ` set (dups key (get_elements_by_tag doc tg) {})"
  have d: "doc' = prune ?R doc" using assms by (simp add: dedup_loop_eq)
  have "subseq (survivors ?R doc) (elements doc)"
    by (rule subseq_order.order_trans [OF survivors_subseq subseq_filter_left])
  then have "subseq (filter (\<lambda>e. tag e = tg) (survivors ?R doc)) (get_elements_by_tag doc tg)"
    unfolding get_elements_by_tag_def by (rule subseq_filter)
  then have "subseq (map ref (filter (\<lambda>e. tag e = tg) (survivors ?R doc)))
                    (map ref (get_elements_by_tag doc tg))"
    by (rule subseq_map)
  then show ?thesis by (simp add: d get_elements_by_tag_prune comp_def)
qed

lemma dedup_loop_count:
  "snd (dedup_loop key els {} (doc, n)) = n + (length els - card (key ` set els))"
  by (simp add: dedup_loop_eq length_dups)


lemma dedup_loop_changed:
  assumes "set els \<subseteq> set (elements doc)"
    and "dedup_loop key els {} (doc, n) = (doc', n')" and "n' > n"
  shows "doc' \<noteq> doc"
proof -
  let ?D = "dups key els {}"
  from assms(2) have d: "doc' = prune (ref ` set ?D) doc" "n' = n + length ?D"
    by (simp_all add: dedup_loop_eq)
  with assms(3) obtain x where "x \<in> set ?D" by (cases ?D) auto
  with set_dups_subset [of key els "{}"] assms(1) have "ref x \<in> ref ` set (elements doc) \<inter> ref ` set ?D"
    by auto
  then have "ref ` set (elements doc) \<inter> ref ` set ?D \<noteq> {}" by blast
  from prune_changes [OF this] d(1) show ?thesis by simp
qed

lemma key_prune_el [simp]:
  "part_name (prune_el R e) = part_name e" "extension (prune_el R e) = extension e"
  "type_target (prune_el R e) = type_target e"
  by (simp_all add: part_name_def extension_def type_target_def)

section \<open>Reading and writing parts\<close>

lemma map_of_files_write_xml:
  "map_of (files (write_xml doc q pkg)) p =
     (if p = q then Some (to_part doc) else map_of (files pkg) p)"
  by (simp add: write_xml_def update_conv')

lemma written_write_xml [simp]: "written (write_xml doc q pkg) = written pkg @ [q]"
  by (simp add: write_xml_def)

lemma keys_write_xml:
  "path_exists pkg q \<Longrightarrow> map fst (files (write_xml doc q pkg)) = map fst (files pkg)"
  by (auto simp: write_xml_def path_exists_def update_keys map_of_eq_None_iff)

lemma parse_xml_cong:
  "map_of (files pkg') p = map_of (files pkg) p \<Longrightarrow> parse_xml pkg' p = parse_xml pkg p"
  by (simp add: parse_xml_def)

lemma path_exists_cong:
  "map_of (files pkg') p = map_of (files pkg) p \<Longrightarrow> path_exists pkg' p = path_exists pkg p"
  by (simp add: path_exists_def)

lemma parse_xml_write_xml:
  "parse_xml (write_xml doc q pkg) p =
     (if p = q then (if list_ex is_Elem doc then Some doc else None) else parse_xml pkg p)"
  by (simp add: parse_xml_def map_of_files_write_xml to_part_def)


lemma parse_xml_Some_exists: "parse_xml pkg p = Some doc \<Longrightarrow> path_exists pkg p"
  by (auto simp: parse_xml_def path_exists_def split: option.splits)

lemma parse_xml_Some_map_of:
  "parse_xml pkg p = Some doc \<longleftrightarrow> map_of (files pkg) p = Some (Xml doc)"
  by (auto simp: parse_xml_def split: option.splits part.splits)

lemma to_part_neq: "doc' \<noteq> doc \<Longrightarrow> to_part doc' \<noteq> Xml doc"
  by (simp add: to_part_def)

lemma rglob_rels_write_xml:
  "path_exists pkg q \<Longrightarrow> rglob_rels (write_xml doc q pkg) = rglob_rels pkg"
  by (simp add: rglob_rels_def keys_write_xml)

lemma rglob_rels_iff:
  "p \<in> set (rglob_rels pkg) \<longleftrightarrow> ends_with ''.rels'' p \<and> path_exists pkg p"
  by (auto simp: rglob_rels_def path_exists_def map_of_eq_None_iff)

lemma distinct_rglob_rels: "distinct (map fst (files pkg)) \<Longrightarrow> distinct (rglob_rels pkg)"
  by (simp add: rglob_rels_def)

lemma not_rels [simp]:
  "\<not> ends_with ''.rels'' ct_path" "\<not> ends_with ''.rels'' doc_path"
  "\<not> ends_with ''.rels'' comments_path" "\<not> ends_with ''.rels'' ext_path"
  "\<not> ends_with ''.rels'' ids_path" "\<not> ends_with ''.rels'' extensible_path"
  by (simp_all add: ends_with_def ct_path_def doc_path_def comments_path_def ext_path_def
        ids_path_def extensible_path_def)

lemma paths_distinct [simp]:
  "doc_path \<noteq> comments_path" "doc_path \<noteq> ct_path" "doc_path \<noteq> ext_path"
  "doc_path \<noteq> ids_path" "doc_path \<noteq> extensible_path"
  "comments_path \<noteq> doc_path" "comments_path \<noteq> ct_path" "comments_path \<noteq> ext_path"
  "comments_path \<noteq> ids_path" "comments_path \<noteq> extensible_path"
  "ct_path \<noteq> doc_path" "ct_path \<noteq> comments_path" "ct_path \<noteq> ext_path"
  "ct_path \<noteq> ids_path" "ct_path \<noteq> extensible_path"
  "ext_path \<noteq> doc_path" "ext_path \<noteq> comments_path" "ext_path \<noteq> ct_path"
  "ext_path \<noteq> ids_path" "ext_path \<noteq> extensible_path"
  "ids_path \<noteq> doc_path" "ids_path \<noteq> comments_path" "ids_path \<noteq> ct_path"
  "ids_path \<noteq> ext_path" "ids_path \<noteq> extensible_path"
  "extensible_path \<noteq> doc_path" "extensible_path \<noteq> comments_path"
  "extensible_path \<noteq> ct_path" "extensible_path \<noteq> ext_path" "extensible_path \<noteq> ids_path"
  by (simp_all add: ct_path_def doc_path_def comments_path_def ext_path_def
        ids_path_def extensible_path_def)

section \<open>Relationship dedup on the package\<close>

text \<open>The result of the two content-type loops and of the \<^verbatim>\<open>Relationship\<close> loop on one
  document.\<close>

definition ct_result :: "document \<Rightarrow> document \<times> nat" where
  "ct_result doc =
     (case dedup_loop part_name (get_elements_by_tag doc ''Override'') {} (doc, 0) of
        (doc1, n1) \<Rightarrow> dedup_loop extension (get_elements_by_tag doc1 ''Default'') {} (doc1, n1))"

definition rels_result :: "document \<Rightarrow> document \<times> nat" where
  "rels_result doc =
     dedup_loop type_target (get_elements_by_tag doc ''Relationship'') {} (doc, 0)"

definition rels_count :: "part option \<Rightarrow> nat" where
  "rels_count po = (case po of Some (Xml doc) \<Rightarrow> snd (rels_result doc) | _ \<Rightarrow> 0)"

definition rels_new :: "part option \<Rightarrow> part option" where
  "rels_new po =
     (case po of
        Some (Xml doc) \<Rightarrow>
          if snd (rels_result doc) > 0 then Some (to_part (fst (rels_result doc))) else po
      | _ \<Rightarrow> po)"

lemma dedup_content_types_eq:
  "dedup_content_types pkg =
     (case parse_xml pkg ct_path of
        None \<Rightarrow> (0, pkg)
      | Some doc \<Rightarrow>
          (snd (ct_result doc),
           if snd (ct_result doc) > 0 then write_xml (fst (ct_result doc)) ct_path pkg else pkg))"
  by (auto simp: dedup_content_types_def ct_result_def path_exists_def parse_xml_def
           split: option.splits prod.splits part.splits)

lemma dedup_rels_file_eq:
  "dedup_rels_file p (t, pkg) =
     (case parse_xml pkg p of
        None \<Rightarrow> (t, pkg)
      | Some doc \<Rightarrow>
          if snd (rels_result doc) > 0
          then (t + snd (rels_result doc), write_xml (fst (rels_result doc)) p pkg)
          else (t, pkg))"
  by (auto simp: dedup_rels_file_def rels_result_def split: option.splits prod.splits)

lemma dedup_rels_file_step:
  assumes "dedup_rels_file p (t, pkg) = (t1, pkg1)"
  shows "t1 = t + rels_count (map_of (files pkg) p)"
    and "map_of (files pkg1) q =
           (if q = p then rels_new (map_of (files pkg) p) else map_of (files pkg) q)"
    and "written pkg1 = written pkg @ (if rels_count (map_of (files pkg) p) > 0 then [p] else [])"
    and "map fst (files pkg1) = map fst (files pkg)"
proof -
  show "t1 = t + rels_count (map_of (files pkg) p)"
    using assms
    by (auto simp: dedup_rels_file_eq rels_count_def parse_xml_def
             split: option.splits part.splits if_splits)
  show "map_of (files pkg1) q =
           (if q = p then rels_new (map_of (files pkg) p) else map_of (files pkg) q)"
    using assms
    by (auto simp: dedup_rels_file_eq rels_new_def parse_xml_def map_of_files_write_xml
             split: option.splits part.splits if_splits)
  show "written pkg1 = written pkg @ (if rels_count (map_of (files pkg) p) > 0 then [p] else [])"
    using assms
    by (auto simp: dedup_rels_file_eq rels_count_def parse_xml_def
             split: option.splits part.splits if_splits)
  show "map fst (files pkg1) = map fst (files pkg)"
    using assms
    by (auto simp: dedup_rels_file_eq keys_write_xml parse_xml_Some_exists
             split: option.splits if_splits)
qed

lemma fold_dedup_rels_file:
  assumes "distinct ps" and "fold dedup_rels_file ps (t, pkg) = (t', pkg')"
  shows "t' = t + sum_list (map (\<lambda>p. rels_count (map_of (files pkg) p)) ps) \<and>
         (\<forall>q. map_of (files pkg') q =
                (if q \<in> set ps then rels_new (map_of (files pkg) q) else map_of (files pkg) q)) \<and>
         written pkg' = written pkg @ filter (\<lambda>p. rels_count (map_of (files pkg) p) > 0) ps \<and>
         map fst (files pkg') = map fst (files pkg)"
  using assms
proof (induction ps arbitrary: t pkg)
  case Nil
  then show ?case by simp
next
  case (Cons p ps)
  obtain t1 pkg1 where s: "dedup_rels_file p (t, pkg) = (t1, pkg1)" by (cases "dedup_rels_file p (t, pkg)")
  note st = dedup_rels_file_step [OF s]
  from Cons.prems s have f: "fold dedup_rels_file ps (t1, pkg1) = (t', pkg')" by simp
  from Cons.prems have d: "distinct ps" "p \<notin> set ps" by simp_all
  note ih = Cons.IH [OF d(1) f]
  have same: "map_of (files pkg1) q = map_of (files pkg) q" if "q \<in> set ps" for q
    using st(2) [of q] that d(2) by auto
  have sum: "sum_list (map (\<lambda>p. rels_count (map_of (files pkg1) p)) ps)
               = sum_list (map (\<lambda>p. rels_count (map_of (files pkg) p)) ps)"
    using same by (intro arg_cong [where f = sum_list] map_cong) auto
  have fil: "filter (\<lambda>p. rels_count (map_of (files pkg1) p) > 0) ps
               = filter (\<lambda>p. rels_count (map_of (files pkg) p) > 0) ps"
    using same by (intro filter_cong) auto
  have 1: "t' = t + sum_list (map (\<lambda>p. rels_count (map_of (files pkg) p)) (p # ps))"
    using ih st(1) sum by simp
  have 2: "map_of (files pkg') q =
             (if q \<in> set (p # ps) then rels_new (map_of (files pkg) q) else map_of (files pkg) q)" for q
    using ih st(2) [of q] same [of q] d(2) by auto
  have 3: "written pkg' = written pkg @ filter (\<lambda>p. rels_count (map_of (files pkg) p) > 0) (p # ps)"
    using ih st(3) fil by simp
  have 4: "map fst (files pkg') = map fst (files pkg)"
    using ih st(4) by simp
  from 1 2 3 4 show ?case by blast
qed

text \<open>Properties of the content-type result.\<close>

lemma distinct_key_prune:
  assumes "\<And>R e. key (prune_el R e) = key e"
    and "distinct (map key (get_elements_by_tag doc tg))"
  shows "distinct (map key (get_elements_by_tag (prune R doc) tg))"
proof -
  have "subseq (survivors R doc) (elements doc)"
    by (rule subseq_order.order_trans [OF survivors_subseq subseq_filter_left])
  then have "subseq (filter (\<lambda>e. tag e = tg) (survivors R doc)) (get_elements_by_tag doc tg)"
    unfolding get_elements_by_tag_def by (rule subseq_filter)
  from subseq_pruned_distinct [OF assms(1) this assms(2)]
  show ?thesis by (simp add: get_elements_by_tag_prune)
qed

lemma first_occurrence_prune_el:
  "first_occurrence key els e \<Longrightarrow> first_occurrence key els (prune_el R e)"
  by (simp add: first_occurrence_def)

lemma in_get_elements_by_tag_prune:
  assumes "e' \<in> set (get_elements_by_tag (prune R doc) tg)"
  obtains e where "e \<in> set (get_elements_by_tag doc tg)" "e' = prune_el R e"
proof -
  from assms obtain e where e: "e \<in> set (survivors R doc)" "tag e = tg" "e' = prune_el R e"
    by (auto simp: get_elements_by_tag_prune)
  have "subseq (survivors R doc) (elements doc)"
    by (rule subseq_order.order_trans [OF survivors_subseq subseq_filter_left])
  with e(1) have "e \<in> set (elements doc)" using subseq_set_mono by blast
  with e that show ?thesis by (auto simp: get_elements_by_tag_def)
qed

lemma ct_result_props:
  assumes "ct_result doc = (doc2, n2)"
  defines "doc1 \<equiv> fst (dedup_loop part_name (get_elements_by_tag doc ''Override'') {} (doc, 0))"
  shows "distinct (map part_name (get_elements_by_tag doc2 ''Override''))"
    and "distinct (map extension (get_elements_by_tag doc2 ''Default''))"
    and "\<forall>e' \<in> set (get_elements_by_tag doc2 ''Override'').
            first_occurrence part_name (get_elements_by_tag doc ''Override'') e'"
    and "\<forall>e' \<in> set (get_elements_by_tag doc2 ''Default'').
            first_occurrence extension (get_elements_by_tag doc1 ''Default'') e'"
    and "n2 = (length (get_elements_by_tag doc ''Override'') -
                 card (part_name ` set (get_elements_by_tag doc ''Override''))) +
              (length (get_elements_by_tag doc1 ''Default'') -
                 card (extension ` set (get_elements_by_tag doc1 ''Default'')))"
    and "n2 > 0 \<Longrightarrow> doc2 \<noteq> doc"
    and "n2 = 0 \<Longrightarrow> doc2 = doc"
proof -
  obtain d1 n1 where p1: "dedup_loop part_name (get_elements_by_tag doc ''Override'') {} (doc, 0) = (d1, n1)"
    by (cases "dedup_loop part_name (get_elements_by_tag doc ''Override'') {} (doc, 0)")
  then have d1: "d1 = doc1" by (simp add: doc1_def)
  from assms(1) p1 have p2: "dedup_loop extension (get_elements_by_tag d1 ''Default'') {} (d1, n1) = (doc2, n2)"
    by (simp add: ct_result_def)
  have doc2: "doc2 = prune (ref ` set (dups extension (get_elements_by_tag d1 ''Default'') {})) d1"
    using p2 by (simp add: dedup_loop_eq)
  have "distinct (map part_name (get_elements_by_tag d1 ''Override''))"
    using p1 by (rule dedup_loop_distinct [rotated]) simp
  then show "distinct (map part_name (get_elements_by_tag doc2 ''Override''))"
    unfolding doc2 by (rule distinct_key_prune [rotated]) simp
  show "distinct (map extension (get_elements_by_tag doc2 ''Default''))"
    using p2 by (rule dedup_loop_distinct [rotated]) simp
  show "\<forall>e' \<in> set (get_elements_by_tag doc2 ''Override'').
            first_occurrence part_name (get_elements_by_tag doc ''Override'') e'"
  proof
    fix e' assume "e' \<in> set (get_elements_by_tag doc2 ''Override'')"
    then obtain e where e: "e \<in> set (get_elements_by_tag d1 ''Override'')"
      "e' = prune_el (ref ` set (dups extension (get_elements_by_tag d1 ''Default'') {})) e"
      unfolding doc2 by (rule in_get_elements_by_tag_prune)
    from dedup_loop_first_occurrence [OF p1 e(1)] e(2)
    show "first_occurrence part_name (get_elements_by_tag doc ''Override'') e'"
      by (simp add: first_occurrence_prune_el)
  qed
  show "\<forall>e' \<in> set (get_elements_by_tag doc2 ''Default'').
            first_occurrence extension (get_elements_by_tag doc1 ''Default'') e'"
    using dedup_loop_first_occurrence [OF p2] d1 by blast
  have n1: "n1 = length (get_elements_by_tag doc ''Override'') -
                 card (part_name ` set (get_elements_by_tag doc ''Override''))"
    using dedup_loop_count [of part_name "get_elements_by_tag doc ''Override''" doc 0] p1 by simp
  show n2: "n2 = (length (get_elements_by_tag doc ''Override'') -
                 card (part_name ` set (get_elements_by_tag doc ''Override''))) +
              (length (get_elements_by_tag doc1 ''Default'') -
                 card (extension ` set (get_elements_by_tag doc1 ''Default'')))"
    using dedup_loop_count [of extension "get_elements_by_tag d1 ''Default''" d1 n1] p2 n1 d1 by simp
  have sub1: "set (get_elements_by_tag doc ''Override'') \<subseteq> set (elements doc)"
    and sub2: "set (get_elements_by_tag d1 ''Default'') \<subseteq> set (elements d1)"
    by (auto simp: get_elements_by_tag_def)
  let ?D1 = "dups part_name (get_elements_by_tag doc ''Override'') {}"
  let ?D2 = "dups extension (get_elements_by_tag d1 ''Default'') {}"
  have e1: "d1 = prune (ref ` set ?D1) doc" "n1 = length ?D1"
    using p1 by (simp_all add: dedup_loop_eq)
  have e2: "n2 = n1 + length ?D2" using p2 by (simp add: dedup_loop_eq)
  show "doc2 = doc" if "n2 = 0"
  proof -
    from that e2 e1(2) have "?D1 = []" "?D2 = []" by simp_all
    then have "d1 = doc" "doc2 = d1" using e1(1) doc2 by simp_all
    then show ?thesis by simp
  qed
  show "doc2 \<noteq> doc" if "n2 > 0"
  proof (cases "n1 > 0")
    case True
    have "length (elements doc2) \<le> length (elements d1)"
      unfolding doc2 elements_prune length_map
      using list_emb_length [OF survivors_subseq [of _ d1]] length_filter_le le_trans by blast
    moreover have "length (elements d1) < length (elements doc)"
    proof -
      from True e1(2) obtain x where "x \<in> set ?D1" by (cases ?D1) auto
      with set_dups_subset [of part_name _ "{}"] sub1
      have "ref x \<in> ref ` set (elements doc) \<inter> ref ` set ?D1" by auto
      then have "ref ` set (elements doc) \<inter> ref ` set ?D1 \<noteq> {}" by blast
      from length_survivors_less [OF this] show ?thesis by (simp add: e1(1) elements_prune)
    qed
    ultimately show ?thesis by auto
  next
    case False
    then have "d1 = doc" using e1 by simp
    moreover have "doc2 \<noteq> d1"
      using dedup_loop_changed [OF sub2 p2] that False by simp
    ultimately show ?thesis by simp
  qed
qed

lemma rels_result_props:
  assumes "rels_result doc = (doc1, n1)"
  shows "distinct (map type_target (get_elements_by_tag doc1 ''Relationship''))"
    and "\<forall>e' \<in> set (get_elements_by_tag doc1 ''Relationship'').
            first_occurrence type_target (get_elements_by_tag doc ''Relationship'') e'"
    and "n1 = length (get_elements_by_tag doc ''Relationship'') -
                card (type_target ` set (get_elements_by_tag doc ''Relationship''))"
    and "n1 > 0 \<Longrightarrow> doc1 \<noteq> doc"
    and "n1 = 0 \<Longrightarrow> doc1 = doc"
proof -
  note p = assms [unfolded rels_result_def]
  show "distinct (map type_target (get_elements_by_tag doc1 ''Relationship''))"
    using p by (rule dedup_loop_distinct [rotated]) simp
  show "\<forall>e' \<in> set (get_elements_by_tag doc1 ''Relationship'').
            first_occurrence type_target (get_elements_by_tag doc ''Relationship'') e'"
    using dedup_loop_first_occurrence [OF p] by blast
  show "n1 = length (get_elements_by_tag doc ''Relationship'') -
                card (type_target ` set (get_elements_by_tag doc ''Relationship''))"
    using dedup_loop_count [of type_target "get_elements_by_tag doc ''Relationship''" doc 0] p
    by simp
  have sub: "set (get_elements_by_tag doc ''Relationship'') \<subseteq> set (elements doc)"
    by (auto simp: get_elements_by_tag_def)
  show "doc1 \<noteq> doc" if "n1 > 0"
    using dedup_loop_changed [OF sub p] that by simp
  show "doc1 = doc" if "n1 = 0"
  proof -
    from p have e: "doc1 = prune (ref ` set (dups type_target (get_elements_by_tag doc ''Relationship'') {})) doc"
      "n1 = length (dups type_target (get_elements_by_tag doc ''Relationship'') {})"
      by (simp_all add: dedup_loop_eq)
    from that e(2) have "dups type_target (get_elements_by_tag doc ''Relationship'') {} = []" by simp
    with e(1) show ?thesis by simp
  qed
qed

text \<open>The parts after the whole phase.\<close>

definition ct_count :: "part option \<Rightarrow> nat" where
  "ct_count po = (case po of Some (Xml doc) \<Rightarrow> snd (ct_result doc) | _ \<Rightarrow> 0)"

definition ct_new :: "part option \<Rightarrow> part option" where
  "ct_new po =
     (case po of
        Some (Xml doc) \<Rightarrow>
          if snd (ct_result doc) > 0 then Some (to_part (fst (ct_result doc))) else po
      | _ \<Rightarrow> po)"

lemma dedup_content_types_step:
  assumes "dedup_content_types pkg = (ct, pkg1)"
  shows "ct = ct_count (map_of (files pkg) ct_path)"
    and "map_of (files pkg1) q =
           (if q = ct_path then ct_new (map_of (files pkg) ct_path) else map_of (files pkg) q)"
    and "written pkg1 = written pkg @ (if ct > 0 then [ct_path] else [])"
    and "map fst (files pkg1) = map fst (files pkg)"
    and "ct = 0 \<Longrightarrow> pkg1 = pkg"
proof -
  show "ct = ct_count (map_of (files pkg) ct_path)"
    using assms
    by (auto simp: dedup_content_types_eq ct_count_def parse_xml_def
             split: option.splits part.splits if_splits)
  show "map_of (files pkg1) q =
           (if q = ct_path then ct_new (map_of (files pkg) ct_path) else map_of (files pkg) q)"
    using assms
    by (auto simp: dedup_content_types_eq ct_new_def parse_xml_def map_of_files_write_xml
             split: option.splits part.splits if_splits)
  show "written pkg1 = written pkg @ (if ct > 0 then [ct_path] else [])"
    using assms by (auto simp: dedup_content_types_eq split: option.splits if_splits)
  show "map fst (files pkg1) = map fst (files pkg)"
    using assms
    by (auto simp: dedup_content_types_eq keys_write_xml parse_xml_Some_exists
             split: option.splits if_splits)
  show "pkg1 = pkg" if "ct = 0"
    using assms that by (auto simp: dedup_content_types_eq split: option.splits if_splits)
qed

lemma dedup_relationships_parts:
  assumes "distinct (map fst (files pkg))" "dedup_relationships pkg = (summary, pkg')"
  shows "map_of (files pkg') ct_path = ct_new (map_of (files pkg) ct_path)"
    and "ends_with ''.rels'' p \<Longrightarrow> map_of (files pkg') p = rels_new (map_of (files pkg) p)"
    and "content_types_removed summary = ct_count (map_of (files pkg) ct_path)"
    and "rels_removed summary =
           sum_list (map (\<lambda>p. rels_count (map_of (files pkg) p)) (rglob_rels pkg))"
    and "map fst (files pkg') = map fst (files pkg)"
    and "written pkg' =
           written pkg @ (if ct_count (map_of (files pkg) ct_path) > 0 then [ct_path] else []) @
           filter (\<lambda>p. rels_count (map_of (files pkg) p) > 0) (rglob_rels pkg)"
proof -
  obtain ct pkg1 where c: "dedup_content_types pkg = (ct, pkg1)"
    by (cases "dedup_content_types pkg")
  obtain rels pkg2 where f: "fold dedup_rels_file (rglob_rels pkg1) (0, pkg1) = (rels, pkg2)"
    by (cases "fold dedup_rels_file (rglob_rels pkg1) (0, pkg1)")
  from assms(2) c f have s: "summary = \<lparr>content_types_removed = ct, rels_removed = rels\<rparr>"
    and p': "pkg' = pkg2" by (simp_all add: dedup_relationships_def)
  note st = dedup_content_types_step [OF c]
  have rg: "rglob_rels pkg1 = rglob_rels pkg" by (simp add: rglob_rels_def st(4))
  have dist: "distinct (rglob_rels pkg1)" using assms(1) rg by (simp add: distinct_rglob_rels)
  note fold = fold_dedup_rels_file [OF dist f]
  have same: "map_of (files pkg1) q = map_of (files pkg) q" if "q \<in> set (rglob_rels pkg)" for q
  proof -
    from that have "q \<noteq> ct_path" by (auto simp: rglob_rels_iff)
    with st(2) [of q] show ?thesis by simp
  qed
  show "map_of (files pkg') ct_path = ct_new (map_of (files pkg) ct_path)"
    using fold st(2) [of ct_path] p' by (simp add: rglob_rels_iff)
  show "map_of (files pkg') p = rels_new (map_of (files pkg) p)" if "ends_with ''.rels'' p"
  proof -
    from that have n: "p \<noteq> ct_path" by auto
    show ?thesis
    proof (cases "p \<in> set (rglob_rels pkg1)")
      case True
      with fold p' st(2) [of p] n show ?thesis by simp
    next
      case False
      with that have "map_of (files pkg1) p = None" by (simp add: rglob_rels_iff path_exists_def)
      with fold p' False st(2) [of p] n show ?thesis by (simp add: rels_new_def)
    qed
  qed
  show "content_types_removed summary = ct_count (map_of (files pkg) ct_path)"
    using s st(1) by simp
  have "sum_list (map (\<lambda>p. rels_count (map_of (files pkg1) p)) (rglob_rels pkg))
          = sum_list (map (\<lambda>p. rels_count (map_of (files pkg) p)) (rglob_rels pkg))"
    using same by (intro arg_cong [where f = sum_list] map_cong) auto
  then show "rels_removed summary =
           sum_list (map (\<lambda>p. rels_count (map_of (files pkg) p)) (rglob_rels pkg))"
    using s fold rg by simp
  show "map fst (files pkg') = map fst (files pkg)"
    using fold st(4) p' by simp
  have "filter (\<lambda>p. rels_count (map_of (files pkg1) p) > 0) (rglob_rels pkg)
          = filter (\<lambda>p. rels_count (map_of (files pkg) p) > 0) (rglob_rels pkg)"
    using same by (intro filter_cong) auto
  then show "written pkg' =
           written pkg @ (if ct_count (map_of (files pkg) ct_path) > 0 then [ct_path] else []) @
           filter (\<lambda>p. rels_count (map_of (files pkg) p) > 0) (rglob_rels pkg)"
    using fold st(1,3) rg p' by simp
qed

lemma ct_new_parse:
  assumes "ct_new po = Some (Xml doc')"
  obtains doc where "po = Some (Xml doc)" "ct_result doc = (doc', snd (ct_result doc))"
proof -
  from assms obtain doc where doc: "po = Some (Xml doc)"
    by (auto simp: ct_new_def split: option.splits part.splits)
  have "fst (ct_result doc) = doc'"
  proof (cases "snd (ct_result doc) = 0")
    case True
    with assms doc have "doc' = doc" by (simp add: ct_new_def)
    with ct_result_props(7) [OF surjective_pairing True] show ?thesis by simp
  next
    case False
    with assms doc show ?thesis by (simp add: ct_new_def to_part_def split: if_splits)
  qed
  then have "ct_result doc = (doc', snd (ct_result doc))" by (simp add: prod_eq_iff)
  with doc that show ?thesis by blast
qed

lemma rels_new_parse:
  assumes "rels_new po = Some (Xml doc')"
  obtains doc where "po = Some (Xml doc)" "rels_result doc = (doc', snd (rels_result doc))"
proof -
  from assms obtain doc where doc: "po = Some (Xml doc)"
    by (auto simp: rels_new_def split: option.splits part.splits)
  have "fst (rels_result doc) = doc'"
  proof (cases "snd (rels_result doc) = 0")
    case True
    with assms doc have "doc' = doc" by (simp add: rels_new_def)
    with rels_result_props(5) [OF surjective_pairing True] show ?thesis by simp
  next
    case False
    with assms doc show ?thesis by (simp add: rels_new_def to_part_def split: if_splits)
  qed
  then have "rels_result doc = (doc', snd (rels_result doc))" by (simp add: prod_eq_iff)
  with doc that show ?thesis by blast
qed

text \<open>
  Claim C5, as the code has it. After the relationship-dedup phase every \<^verbatim>\<open>PartName\<close> of an
  \<^verbatim>\<open>Override\<close> node and every \<^verbatim>\<open>Extension\<close> of a \<^verbatim>\<open>Default\<close> node of the content-types
  manifest, and every (\<^verbatim>\<open>Type\<close>, \<^verbatim>\<open>Target\<close>) pair of a \<^verbatim>\<open>Relationship\<close> node of a \<^verbatim>\<open>.rels\<close>
  manifest, is on exactly one node. A surviving \<^verbatim>\<open>Override\<close> or \<^verbatim>\<open>Relationship\<close> node is the
  first occurrence of its key in the document order of the file; a surviving \<^verbatim>\<open>Default\<close>
  node is the first occurrence among the \<^verbatim>\<open>Default\<close> nodes that are left when the duplicate
  \<^verbatim>\<open>Override\<close> nodes have been removed with everything below them. Both counters give the
  number of nodes the loops removed: the nodes beyond the first of each key.
\<close>

theorem dedup_relationships_first_occurrences:
  assumes "distinct (map fst (files pkg))"
    and "dedup_relationships pkg = (summary, pkg')"
  shows
    "(\<forall>doc'. parse_xml pkg' ct_path = Some doc' \<longrightarrow>
        distinct (map part_name (get_elements_by_tag doc' ''Override'')) \<and>
        distinct (map extension (get_elements_by_tag doc' ''Default''))) \<and>
     (\<forall>p doc'. ends_with ''.rels'' p \<and> parse_xml pkg' p = Some doc' \<longrightarrow>
        distinct (map type_target (get_elements_by_tag doc' ''Relationship''))) \<and>
     (\<forall>doc doc'. parse_xml pkg ct_path = Some doc \<and> parse_xml pkg' ct_path = Some doc' \<longrightarrow>
        (\<forall>e' \<in> set (get_elements_by_tag doc' ''Override'').
           first_occurrence part_name (get_elements_by_tag doc ''Override'') e') \<and>
        (\<forall>e' \<in> set (get_elements_by_tag doc' ''Default'').
           first_occurrence extension
             (get_elements_by_tag
                (fst (dedup_loop part_name (get_elements_by_tag doc ''Override'') {} (doc, 0)))
                ''Default'') e')) \<and>
     (\<forall>p doc doc'. ends_with ''.rels'' p \<and> parse_xml pkg p = Some doc \<and>
                   parse_xml pkg' p = Some doc' \<longrightarrow>
        (\<forall>e' \<in> set (get_elements_by_tag doc' ''Relationship'').
           first_occurrence type_target (get_elements_by_tag doc ''Relationship'') e')) \<and>
     content_types_removed summary =
       (case parse_xml pkg ct_path of
          None \<Rightarrow> 0
        | Some doc \<Rightarrow>
            (length (get_elements_by_tag doc ''Override'') -
               card (part_name ` set (get_elements_by_tag doc ''Override''))) +
            (length (get_elements_by_tag
                       (fst (dedup_loop part_name (get_elements_by_tag doc ''Override'') {} (doc, 0)))
                       ''Default'') -
               card (extension ` set (get_elements_by_tag
                       (fst (dedup_loop part_name (get_elements_by_tag doc ''Override'') {} (doc, 0)))
                       ''Default'')))) \<and>
     rels_removed summary =
       sum_list (map (\<lambda>p. case parse_xml pkg p of
                             None \<Rightarrow> 0
                           | Some doc \<Rightarrow>
                               length (get_elements_by_tag doc ''Relationship'') -
                               card (type_target ` set (get_elements_by_tag doc ''Relationship'')))
                   (rglob_rels pkg))"
proof -
  note parts = dedup_relationships_parts [OF assms]
  have A: "distinct (map part_name (get_elements_by_tag doc' ''Override'')) \<and>
           distinct (map extension (get_elements_by_tag doc' ''Default''))"
    if "parse_xml pkg' ct_path = Some doc'" for doc'
  proof -
    from that parts(1) have "ct_new (map_of (files pkg) ct_path) = Some (Xml doc')"
      by (simp add: parse_xml_Some_map_of)
    then obtain doc where "ct_result doc = (doc', snd (ct_result doc))" by (rule ct_new_parse)
    from ct_result_props(1,2) [OF this] show ?thesis by simp
  qed
  have B: "distinct (map type_target (get_elements_by_tag doc' ''Relationship''))"
    if "ends_with ''.rels'' p" "parse_xml pkg' p = Some doc'" for p doc'
  proof -
    from that parts(2) have "rels_new (map_of (files pkg) p) = Some (Xml doc')"
      by (simp add: parse_xml_Some_map_of)
    then obtain doc where "rels_result doc = (doc', snd (rels_result doc))" by (rule rels_new_parse)
    from rels_result_props(1) [OF this] show ?thesis .
  qed
  have C: "(\<forall>e' \<in> set (get_elements_by_tag doc' ''Override'').
              first_occurrence part_name (get_elements_by_tag doc ''Override'') e') \<and>
           (\<forall>e' \<in> set (get_elements_by_tag doc' ''Default'').
              first_occurrence extension
                (get_elements_by_tag
                   (fst (dedup_loop part_name (get_elements_by_tag doc ''Override'') {} (doc, 0)))
                   ''Default'') e')"
    if "parse_xml pkg ct_path = Some doc" "parse_xml pkg' ct_path = Some doc'" for doc doc'
  proof -
    from that(2) parts(1) have "ct_new (map_of (files pkg) ct_path) = Some (Xml doc')"
      by (simp add: parse_xml_Some_map_of)
    then obtain d where d: "map_of (files pkg) ct_path = Some (Xml d)"
      "ct_result d = (doc', snd (ct_result d))" by (rule ct_new_parse)
    from d(1) that(1) have "d = doc" by (simp add: parse_xml_Some_map_of)
    with ct_result_props(3,4) [OF d(2)] show ?thesis by simp
  qed
  have D: "\<forall>e' \<in> set (get_elements_by_tag doc' ''Relationship'').
              first_occurrence type_target (get_elements_by_tag doc ''Relationship'') e'"
    if "ends_with ''.rels'' p" "parse_xml pkg p = Some doc" "parse_xml pkg' p = Some doc'"
    for p doc doc'
  proof -
    from that(1,3) parts(2) have "rels_new (map_of (files pkg) p) = Some (Xml doc')"
      by (simp add: parse_xml_Some_map_of)
    then obtain d where d: "map_of (files pkg) p = Some (Xml d)"
      "rels_result d = (doc', snd (rels_result d))" by (rule rels_new_parse)
    from d(1) that(2) have "d = doc" by (simp add: parse_xml_Some_map_of)
    with rels_result_props(2) [OF d(2)] show ?thesis by simp
  qed
  have E: "content_types_removed summary = (case parse_xml pkg ct_path of
          None \<Rightarrow> 0
        | Some doc \<Rightarrow>
            (length (get_elements_by_tag doc ''Override'') -
               card (part_name ` set (get_elements_by_tag doc ''Override''))) +
            (length (get_elements_by_tag
                       (fst (dedup_loop part_name (get_elements_by_tag doc ''Override'') {} (doc, 0)))
                       ''Default'') -
               card (extension ` set (get_elements_by_tag
                       (fst (dedup_loop part_name (get_elements_by_tag doc ''Override'') {} (doc, 0)))
                       ''Default''))))"
  proof (cases "parse_xml pkg ct_path")
    case None
    then show ?thesis
      by (auto simp: parts(3) ct_count_def parse_xml_def split: option.splits part.splits)
  next
    case (Some doc)
    then have "content_types_removed summary = snd (ct_result doc)"
      by (simp add: parts(3) ct_count_def parse_xml_Some_map_of)
    with ct_result_props(5) [OF surjective_pairing, of doc] Some show ?thesis by simp
  qed
  have cnt: "rels_count (map_of (files pkg) p) =
               (case parse_xml pkg p of
                  None \<Rightarrow> 0
                | Some doc \<Rightarrow>
                    length (get_elements_by_tag doc ''Relationship'') -
                    card (type_target ` set (get_elements_by_tag doc ''Relationship'')))" for p
  proof (cases "parse_xml pkg p")
    case None
    then show ?thesis
      by (auto simp: rels_count_def parse_xml_def split: option.splits part.splits)
  next
    case (Some doc)
    then have "rels_count (map_of (files pkg) p) = snd (rels_result doc)"
      by (simp add: rels_count_def parse_xml_Some_map_of)
    with rels_result_props(3) [OF surjective_pairing, of doc] Some show ?thesis by simp
  qed
  have F: "rels_removed summary = sum_list (map (\<lambda>p. case parse_xml pkg p of
                             None \<Rightarrow> 0
                           | Some doc \<Rightarrow>
                               length (get_elements_by_tag doc ''Relationship'') -
                               card (type_target ` set (get_elements_by_tag doc ''Relationship'')))
                   (rglob_rels pkg))"
    unfolding parts(4) using cnt by (intro arg_cong [where f = sum_list] map_cong) auto
  from A B C D E F show ?thesis by blast
qed

theorem dedup_relationships_first_occurrences_witness:
  "distinct (map fst (files pkg_dups)) \<and>
   dedup_relationships pkg_dups =
     (\<lparr>content_types_removed = 1, rels_removed = 1\<rparr>, pkg_dups_after) \<and>
   parse_xml pkg_dups_after ct_path =
     Some [Elem 0 ''Types'' []
             [Elem 1 ''Default'' [(''Extension'', ''xml''), (''ContentType'', ''application/xml'')] [],
              Elem 2 ''Override'' [(''PartName'', ''/word/document.xml'')] []]] \<and>
   first_occurrence part_name (get_elements_by_tag ct_dups ''Override'')
     (Elem 2 ''Override'' [(''PartName'', ''/word/document.xml'')] [])"
proof -
  have a: "distinct (map fst (files pkg_dups))" by code_simp
  have b: "dedup_relationships pkg_dups =
             (\<lparr>content_types_removed = 1, rels_removed = 1\<rparr>, pkg_dups_after)" by code_simp
  have c: "parse_xml pkg_dups ct_path = Some ct_dups" by code_simp
  have d: "parse_xml pkg_dups_after ct_path =
     Some [Elem 0 ''Types'' []
             [Elem 1 ''Default'' [(''Extension'', ''xml''), (''ContentType'', ''application/xml'')] [],
              Elem 2 ''Override'' [(''PartName'', ''/word/document.xml'')] []]]" by code_simp
  have e: "Elem 2 ''Override'' [(''PartName'', ''/word/document.xml'')] [] \<in>
             set (get_elements_by_tag
                    [Elem 0 ''Types'' []
                       [Elem 1 ''Default'' [(''Extension'', ''xml''), (''ContentType'', ''application/xml'')] [],
                        Elem 2 ''Override'' [(''PartName'', ''/word/document.xml'')] []]] ''Override'')"
    by code_simp
  from dedup_relationships_first_occurrences [OF a b] c d e
  have "first_occurrence part_name (get_elements_by_tag ct_dups ''Override'')
          (Elem 2 ''Override'' [(''PartName'', ''/word/document.xml'')] [])"
    by blast
  with a b d show ?thesis by blast
qed

text \<open>
  The claim as the spec words it fails on a manifest in which a \<^verbatim>\<open>Default\<close> node lies inside
  a duplicate \<^verbatim>\<open>Override\<close> node: the \<^verbatim>\<open>Default\<close> node that survives (object 4) is the second
  node with extension \<open>xml\<close> in document order; the first one (object 3) left the tree with
  the \<^verbatim>\<open>Override\<close> node around it.
\<close>

theorem dedup_relationships_nested_default:
  "map ref (get_elements_by_tag ct_nested ''Default'') = [3, 4] \<and>
   map extension (get_elements_by_tag ct_nested ''Default'') = [''xml'', ''xml''] \<and>
   fst (dedup_relationships pkg_nested) = \<lparr>content_types_removed = 1, rels_removed = 0\<rparr> \<and>
   parse_xml (snd (dedup_relationships pkg_nested)) ct_path =
     Some [Elem 0 ''Types'' []
             [Elem 1 ''Override'' [(''PartName'', ''/word/document.xml'')] [],
              Elem 4 ''Default'' [(''Extension'', ''xml'')] []]] \<and>
   \<not> first_occurrence extension (get_elements_by_tag ct_nested ''Default'')
        (Elem 4 ''Default'' [(''Extension'', ''xml'')] [])"
  by code_simp

section \<open>Orphan cleanup\<close>

text \<open>The tests of the three loops, and the durable ids the first loop collects.\<close>

definition ext_orphan :: "string set \<Rightarrow> node \<Rightarrow> bool" where
  "ext_orphan valid el =
     (getAttribute el ''w15:paraId'' \<noteq> [] \<and> getAttribute el ''w15:paraId'' \<notin> valid)"

definition ids_orphan :: "string set \<Rightarrow> node \<Rightarrow> bool" where
  "ids_orphan valid el =
     (getAttribute el ''w16cid:paraId'' \<noteq> [] \<and> getAttribute el ''w16cid:paraId'' \<notin> valid)"

definition extensible_orphan :: "string set \<Rightarrow> node \<Rightarrow> bool" where
  "extensible_orphan durable el =
     (getAttribute el ''w16cex:durableId'' \<noteq> [] \<and> durable \<noteq> {} \<and>
      getAttribute el ''w16cex:durableId'' \<notin> durable)"

definition durable_of :: "string set \<Rightarrow> node list \<Rightarrow> string set" where
  "durable_of valid els =
     {getAttribute el ''w15:durableId'' | el.
        el \<in> set els \<and> getAttribute el ''w15:paraId'' \<noteq> [] \<and>
        getAttribute el ''w15:paraId'' \<in> valid \<and> getAttribute el ''w15:durableId'' \<noteq> []}"

lemma durable_of_Nil [simp]: "durable_of valid [] = {}"
  by (simp add: durable_of_def)

lemma durable_of_Cons:
  "durable_of valid (el # els) =
     (if getAttribute el ''w15:paraId'' \<noteq> [] \<and> getAttribute el ''w15:paraId'' \<in> valid \<and>
         getAttribute el ''w15:durableId'' \<noteq> []
      then insert (getAttribute el ''w15:durableId'') (durable_of valid els)
      else durable_of valid els)"
  by (auto simp: durable_of_def)

lemma fold_removeChild_prune:
  "fold (\<lambda>el. removeChild (ref el)) xs (prune R doc) = prune (R \<union> ref ` set xs) doc"
proof (induction xs arbitrary: R)
  case (Cons x xs)
  have "insert (ref x) R \<union> ref ` set xs = R \<union> insert (ref x) (ref ` set xs)" by auto
  with Cons [of "insert (ref x) R"] show ?case by (simp add: removeChild_of_prune)
qed simp

lemma fold_removeChild:
  "fold (\<lambda>el. removeChild (ref el)) xs doc = prune (ref ` set xs) doc"
  using fold_removeChild_prune [of xs "{}" doc] by simp

lemma clean_extended_eq:
  "clean_extended els valid (doc, n, D) =
     (fold (\<lambda>el. removeChild (ref el)) (filter (ext_orphan valid) els) doc,
      n + length (filter (ext_orphan valid) els), D \<union> durable_of valid els)"
proof (induction els arbitrary: doc n D)
  case (Cons el els)
  show ?case
  proof (cases "ext_orphan valid el")
    case True
    then show ?thesis using Cons [of "removeChild (ref el) doc" "n + 1" D]
      by (auto simp: ext_orphan_def durable_of_Cons Let_def)
  next
    case False
    then show ?thesis
      using Cons [of doc n D] Cons [of doc n "insert (getAttribute el ''w15:durableId'') D"]
      by (auto simp: ext_orphan_def durable_of_Cons Let_def)
  qed
qed simp

lemma clean_ids_eq:
  "clean_ids els valid (doc, n) =
     (fold (\<lambda>el. removeChild (ref el)) (filter (ids_orphan valid) els) doc,
      n + length (filter (ids_orphan valid) els))"
proof (induction els arbitrary: doc n)
  case (Cons el els)
  show ?case
    using Cons [of "removeChild (ref el) doc" "n + 1"] Cons [of doc n]
    by (auto simp: ids_orphan_def Let_def)
qed simp

lemma clean_extensible_eq:
  "clean_extensible els durable (doc, n) =
     (fold (\<lambda>el. removeChild (ref el)) (filter (extensible_orphan durable) els) doc,
      n + length (filter (extensible_orphan durable) els))"
proof (induction els arbitrary: doc n)
  case (Cons el els)
  show ?case
    using Cons [of "removeChild (ref el) doc" "n + 1"] Cons [of doc n]
    by (auto simp: extensible_orphan_def Let_def)
qed simp

text \<open>Removing the elements of a tag that satisfy a test on their attributes.\<close>

definition remove_where :: "(node \<Rightarrow> bool) \<Rightarrow> string \<Rightarrow> document \<Rightarrow> document" where
  "remove_where P tg doc =
     fold (\<lambda>el. removeChild (ref el)) (filter P (get_elements_by_tag doc tg)) doc"

lemma remove_where_prune:
  "remove_where P tg doc = prune (ref ` set (filter P (get_elements_by_tag doc tg))) doc"
  by (simp add: remove_where_def fold_removeChild)

lemma remove_where_entries:
  assumes "e' \<in> set (get_elements_by_tag (remove_where P tg doc) tg)"
  obtains e where "e \<in> set (get_elements_by_tag doc tg)" "\<not> P e"
    and "e' = prune_el (ref ` set (filter P (get_elements_by_tag doc tg))) e"
proof -
  let ?R = "ref ` set (filter P (get_elements_by_tag doc tg))"
  from assms obtain e where e: "e \<in> set (survivors ?R doc)" "tag e = tg" "e' = prune_el ?R e"
    by (auto simp: remove_where_prune get_elements_by_tag_prune)
  from e(1) subseq_set_mono [OF survivors_subseq [of ?R doc]]
  have "e \<in> set (elements doc)" "ref e \<notin> ?R" by auto
  with e(2) have "e \<in> set (get_elements_by_tag doc tg)" "\<not> P e"
    by (auto simp: get_elements_by_tag_def)
  with e(3) that show ?thesis by blast
qed

lemma remove_where_none:
  "filter P (get_elements_by_tag doc tg) = [] \<Longrightarrow> remove_where P tg doc = doc"
  by (simp add: remove_where_def)

lemma remove_where_changed:
  assumes "filter P (get_elements_by_tag doc tg) \<noteq> []"
  shows "remove_where P tg doc \<noteq> doc"
proof -
  from assms obtain x where x: "x \<in> set (filter P (get_elements_by_tag doc tg))"
    by (cases "filter P (get_elements_by_tag doc tg)") auto
  then have "x \<in> set (elements doc)" by (auto simp: get_elements_by_tag_def)
  with x have "ref x \<in> ref ` set (elements doc) \<inter> ref ` set (filter P (get_elements_by_tag doc tg))"
    by blast
  then have "ref ` set (elements doc) \<inter> ref ` set (filter P (get_elements_by_tag doc tg)) \<noteq> {}"
    by blast
  from prune_changes [OF this] show ?thesis by (simp add: remove_where_prune)
qed

lemma orphan_prune_el [simp]:
  "ext_orphan valid (prune_el R e) = ext_orphan valid e"
  "ids_orphan valid (prune_el R e) = ids_orphan valid e"
  "extensible_orphan durable (prune_el R e) = extensible_orphan durable e"
  by (simp_all add: ext_orphan_def ids_orphan_def extensible_orphan_def)

text \<open>Removing where the test is attribute-based leaves no element that satisfies it, so a
  second pass finds nothing.\<close>

lemma remove_where_clean:
  assumes "\<And>R e. P (prune_el R e) = P e"
  shows "filter P (get_elements_by_tag (remove_where P tg doc) tg) = []"
proof -
  have "\<not> P e'" if "e' \<in> set (get_elements_by_tag (remove_where P tg doc) tg)" for e'
    using that assms by (elim remove_where_entries) simp
  then show ?thesis by (simp add: filter_empty_conv)
qed

subsection \<open>The three parts on the package\<close>

text \<open>What a part holds after a loop that removed \<open>n\<close> entries.\<close>

definition cleaned :: "(node \<Rightarrow> bool) \<Rightarrow> string \<Rightarrow> part option \<Rightarrow> part option" where
  "cleaned P tg po =
     (case po of
        Some (Xml doc) \<Rightarrow>
          if filter P (get_elements_by_tag doc tg) = [] then po
          else Some (to_part (remove_where P tg doc))
      | _ \<Rightarrow> po)"

definition orphan_count :: "(node \<Rightarrow> bool) \<Rightarrow> string \<Rightarrow> part option \<Rightarrow> nat" where
  "orphan_count P tg po =
     (case po of Some (Xml doc) \<Rightarrow> length (filter P (get_elements_by_tag doc tg)) | _ \<Rightarrow> 0)"

definition ext_durable :: "string set \<Rightarrow> part option \<Rightarrow> string set" where
  "ext_durable valid po =
     (case po of
        Some (Xml doc) \<Rightarrow> durable_of valid (get_elements_by_tag doc ''w15:commentEx'')
      | _ \<Rightarrow> {})"

lemma process_extended_eq:
  assumes "process_extended valid pkg = (n, durable, pkg1)"
  shows "n = orphan_count (ext_orphan valid) ''w15:commentEx'' (map_of (files pkg) ext_path)"
    and "durable = ext_durable valid (map_of (files pkg) ext_path)"
    and "map_of (files pkg1) q =
           (if q = ext_path
            then cleaned (ext_orphan valid) ''w15:commentEx'' (map_of (files pkg) ext_path)
            else map_of (files pkg) q)"
    and "written pkg1 = written pkg @ (if n > 0 then [ext_path] else [])"
    and "map fst (files pkg1) = map fst (files pkg)"
    and "n = 0 \<Longrightarrow> pkg1 = pkg"
  using assms
  by (auto simp: process_extended_def clean_extended_eq orphan_count_def ext_durable_def
        cleaned_def remove_where_def path_exists_def parse_xml_def map_of_files_write_xml
        keys_write_xml
      split: option.splits part.splits if_splits)

lemma process_ids_eq:
  assumes "process_ids valid (t, pkg) = (t1, pkg1)"
  shows "t1 = t + orphan_count (ids_orphan valid) ''w16cid:commentId'' (map_of (files pkg) ids_path)"
    and "map_of (files pkg1) q =
           (if q = ids_path
            then cleaned (ids_orphan valid) ''w16cid:commentId'' (map_of (files pkg) ids_path)
            else map_of (files pkg) q)"
    and "written pkg1 = written pkg @ (if t1 > t then [ids_path] else [])"
    and "map fst (files pkg1) = map fst (files pkg)"
    and "t1 = t \<Longrightarrow> pkg1 = pkg"
  using assms
  by (auto simp: process_ids_def clean_ids_eq orphan_count_def
        cleaned_def remove_where_def path_exists_def parse_xml_def map_of_files_write_xml
        keys_write_xml
      split: option.splits part.splits if_splits)

lemma process_extensible_eq:
  assumes "process_extensible durable (t, pkg) = (t1, pkg1)"
  shows "t1 = t + orphan_count (extensible_orphan durable) ''w16cex:commentExtensible''
                    (map_of (files pkg) extensible_path)"
    and "map_of (files pkg1) q =
           (if q = extensible_path
            then cleaned (extensible_orphan durable) ''w16cex:commentExtensible''
                   (map_of (files pkg) extensible_path)
            else map_of (files pkg) q)"
    and "written pkg1 = written pkg @ (if t1 > t then [extensible_path] else [])"
    and "map fst (files pkg1) = map fst (files pkg)"
    and "t1 = t \<Longrightarrow> pkg1 = pkg"
  using assms
  by (auto simp: process_extensible_def clean_extensible_eq orphan_count_def
        cleaned_def remove_where_def path_exists_def parse_xml_def map_of_files_write_xml
        keys_write_xml
      split: option.splits part.splits if_splits)

lemma cleaned_entries:
  assumes "\<And>R e. P (prune_el R e) = P e"
    and "cleaned P tg po = Some (Xml d)" and "e \<in> set (get_elements_by_tag d tg)"
  shows "\<not> P e"
proof (cases po)
  case None
  with assms(2) show ?thesis by (simp add: cleaned_def)
next
  case (Some pt)
  show ?thesis
  proof (cases pt)
    case Malformed
    with Some assms(2) show ?thesis by (simp add: cleaned_def)
  next
    case (Xml doc)
    show ?thesis
    proof (cases "filter P (get_elements_by_tag doc tg) = []")
      case True
      with Some Xml assms(2) have "d = doc" by (simp add: cleaned_def)
      with True assms(3) show ?thesis by (auto simp: filter_empty_conv)
    next
      case False
      with Some Xml assms(2) have "d = remove_where P tg doc"
        by (simp add: cleaned_def to_part_def split: if_splits)
      with remove_where_clean [OF assms(1), of tg doc] assms(3) show ?thesis
        by (auto simp: filter_empty_conv)
    qed
  qed
qed

lemma clean_orphaned_comments_eq:
  assumes "parse_xml pkg comments_path = Some comments_doc"
    and "clean_orphaned_comments pkg = (n, pkg')"
  defines "V \<equiv> valid_para_ids comments_doc"
  defines "D \<equiv> ext_durable V (map_of (files pkg) ext_path)"
  shows "map_of (files pkg') q =
           (if q = ext_path
            then cleaned (ext_orphan V) ''w15:commentEx'' (map_of (files pkg) ext_path)
            else if q = ids_path
            then cleaned (ids_orphan V) ''w16cid:commentId'' (map_of (files pkg) ids_path)
            else if q = extensible_path
            then cleaned (extensible_orphan D) ''w16cex:commentExtensible''
                   (map_of (files pkg) extensible_path)
            else map_of (files pkg) q)"
    and "n = orphan_count (ext_orphan V) ''w15:commentEx'' (map_of (files pkg) ext_path) +
             orphan_count (ids_orphan V) ''w16cid:commentId'' (map_of (files pkg) ids_path) +
             orphan_count (extensible_orphan D) ''w16cex:commentExtensible''
               (map_of (files pkg) extensible_path)"
    and "written pkg' =
           written pkg @
           (if orphan_count (ext_orphan V) ''w15:commentEx'' (map_of (files pkg) ext_path) > 0
            then [ext_path] else []) @
           (if orphan_count (ids_orphan V) ''w16cid:commentId'' (map_of (files pkg) ids_path) > 0
            then [ids_path] else []) @
           (if orphan_count (extensible_orphan D) ''w16cex:commentExtensible''
                 (map_of (files pkg) extensible_path) > 0
            then [extensible_path] else [])"
    and "map fst (files pkg') = map fst (files pkg)"
    and "durable_ids_from_valid pkg = D"
    and "n = 0 \<Longrightarrow> pkg' = pkg"
proof -
  obtain n1 durable pkg1 where e: "process_extended V pkg = (n1, durable, pkg1)"
    by (cases "process_extended V pkg")
  obtain n2 pkg2 where i: "process_ids V (n1, pkg1) = (n2, pkg2)"
    by (cases "process_ids V (n1, pkg1)")
  obtain n3 pkg3 where x: "process_extensible durable (n2, pkg2) = (n3, pkg3)"
    by (cases "process_extensible durable (n2, pkg2)")
  from assms(1,2) e i x have r: "n = n3" "pkg' = pkg3"
    by (simp_all add: clean_orphaned_comments_def parse_xml_Some_exists V_def)
  note pe = process_extended_eq [OF e]
  note pi = process_ids_eq [OF i]
  note px = process_extensible_eq [OF x]
  have d: "durable = D" using pe(2) by (simp add: D_def)
  have m1: "map_of (files pkg1) ids_path = map_of (files pkg) ids_path"
    using pe(3) [of ids_path] by simp
  have m2: "map_of (files pkg2) extensible_path = map_of (files pkg) extensible_path"
    using pi(2) [of extensible_path] pe(3) [of extensible_path] by simp
  show "map_of (files pkg') q =
           (if q = ext_path
            then cleaned (ext_orphan V) ''w15:commentEx'' (map_of (files pkg) ext_path)
            else if q = ids_path
            then cleaned (ids_orphan V) ''w16cid:commentId'' (map_of (files pkg) ids_path)
            else if q = extensible_path
            then cleaned (extensible_orphan D) ''w16cex:commentExtensible''
                   (map_of (files pkg) extensible_path)
            else map_of (files pkg) q)"
    using px(2) [of q] pi(2) [of q] pe(3) [of q] m1 m2 r d
    by (cases "q = extensible_path"; cases "q = ids_path"; cases "q = ext_path") simp_all
  show n: "n = orphan_count (ext_orphan V) ''w15:commentEx'' (map_of (files pkg) ext_path) +
             orphan_count (ids_orphan V) ''w16cid:commentId'' (map_of (files pkg) ids_path) +
             orphan_count (extensible_orphan D) ''w16cex:commentExtensible''
               (map_of (files pkg) extensible_path)"
    using px(1) pi(1) pe(1) m1 m2 r d by simp
  show "written pkg' =
           written pkg @
           (if orphan_count (ext_orphan V) ''w15:commentEx'' (map_of (files pkg) ext_path) > 0
            then [ext_path] else []) @
           (if orphan_count (ids_orphan V) ''w16cid:commentId'' (map_of (files pkg) ids_path) > 0
            then [ids_path] else []) @
           (if orphan_count (extensible_orphan D) ''w16cex:commentExtensible''
                 (map_of (files pkg) extensible_path) > 0
            then [extensible_path] else [])"
    using px(1,3) pi(1,3) pe(1,4) m1 m2 r d by simp
  show "map fst (files pkg') = map fst (files pkg)"
    using px(4) pi(4) pe(5) r by simp
  show "durable_ids_from_valid pkg = D"
    using assms(1) e d by (simp add: durable_ids_from_valid_def V_def)
  show "pkg' = pkg" if "n = 0"
  proof -
    from that r px(1) pi(1) have z: "n3 = n2" "n2 = n1" "n1 = 0" by simp_all
    from pe(6) [OF z(3)] pi(5) [OF z(2)] px(5) [OF z(1)] r show ?thesis by simp
  qed
qed

lemma clean_orphaned_comments_no_comments:
  "parse_xml pkg comments_path = None \<Longrightarrow> clean_orphaned_comments pkg = (0, pkg)"
  by (simp add: clean_orphaned_comments_def)

text \<open>
  Claim C4, as the code has it. When \<^verbatim>\<open>comments.xml\<close> parses, then after the orphan cleanup
  every \<^verbatim>\<open>commentsExtended\<close> entry and every \<^verbatim>\<open>commentsIds\<close> entry that has a paraId has the
  paraId of a paragraph of a live comment, and provided the set of valid durable ids is not
  empty, every \<^verbatim>\<open>commentsExtensible\<close> entry that has a durableId has one of that set.
  \<^verbatim>\<open>comments.xml\<close> itself is left as it was. Entries without the key attribute are kept,
  and with an empty set of valid durable ids the extensible part is not cleaned.
\<close>

theorem clean_orphaned_comments_resolves:
  assumes "parse_xml pkg comments_path = Some comments_doc"
    and "clean_orphaned_comments pkg = (n, pkg')"
  shows
    "(\<forall>d. parse_xml pkg' ext_path = Some d \<longrightarrow>
        (\<forall>e \<in> set (get_elements_by_tag d ''w15:commentEx'').
           getAttribute e ''w15:paraId'' \<noteq> [] \<longrightarrow>
           getAttribute e ''w15:paraId'' \<in> valid_para_ids comments_doc)) \<and>
     (\<forall>d. parse_xml pkg' ids_path = Some d \<longrightarrow>
        (\<forall>e \<in> set (get_elements_by_tag d ''w16cid:commentId'').
           getAttribute e ''w16cid:paraId'' \<noteq> [] \<longrightarrow>
           getAttribute e ''w16cid:paraId'' \<in> valid_para_ids comments_doc)) \<and>
     (\<forall>d. parse_xml pkg' extensible_path = Some d \<and> durable_ids_from_valid pkg \<noteq> {} \<longrightarrow>
        (\<forall>e \<in> set (get_elements_by_tag d ''w16cex:commentExtensible'').
           getAttribute e ''w16cex:durableId'' \<noteq> [] \<longrightarrow>
           getAttribute e ''w16cex:durableId'' \<in> durable_ids_from_valid pkg)) \<and>
     parse_xml pkg' comments_path = Some comments_doc"
proof -
  note eq = clean_orphaned_comments_eq [OF assms]
  have a: "getAttribute e ''w15:paraId'' \<in> valid_para_ids comments_doc"
    if "parse_xml pkg' ext_path = Some d" "e \<in> set (get_elements_by_tag d ''w15:commentEx'')"
       "getAttribute e ''w15:paraId'' \<noteq> []" for d e
  proof -
    from that(1) eq(1) [of ext_path]
    have "cleaned (ext_orphan (valid_para_ids comments_doc)) ''w15:commentEx''
            (map_of (files pkg) ext_path) = Some (Xml d)"
      by (simp add: parse_xml_Some_map_of)
    from cleaned_entries [OF _ this that(2)] that(3) show ?thesis
      by (simp add: ext_orphan_def)
  qed
  have b: "getAttribute e ''w16cid:paraId'' \<in> valid_para_ids comments_doc"
    if "parse_xml pkg' ids_path = Some d" "e \<in> set (get_elements_by_tag d ''w16cid:commentId'')"
       "getAttribute e ''w16cid:paraId'' \<noteq> []" for d e
  proof -
    from that(1) eq(1) [of ids_path]
    have "cleaned (ids_orphan (valid_para_ids comments_doc)) ''w16cid:commentId''
            (map_of (files pkg) ids_path) = Some (Xml d)"
      by (simp add: parse_xml_Some_map_of)
    from cleaned_entries [OF _ this that(2)] that(3) show ?thesis
      by (simp add: ids_orphan_def)
  qed
  have c: "getAttribute e ''w16cex:durableId'' \<in> durable_ids_from_valid pkg"
    if "parse_xml pkg' extensible_path = Some d" "durable_ids_from_valid pkg \<noteq> {}"
       "e \<in> set (get_elements_by_tag d ''w16cex:commentExtensible'')"
       "getAttribute e ''w16cex:durableId'' \<noteq> []" for d e
  proof -
    from that(1) eq(1) [of extensible_path] eq(5)
    have "cleaned (extensible_orphan (durable_ids_from_valid pkg)) ''w16cex:commentExtensible''
            (map_of (files pkg) extensible_path) = Some (Xml d)"
      by (simp add: parse_xml_Some_map_of)
    from cleaned_entries [OF _ this that(3)] that(2,4) show ?thesis
      by (simp add: extensible_orphan_def)
  qed
  have "map_of (files pkg') comments_path = map_of (files pkg) comments_path"
    using eq(1) [of comments_path] by simp
  then have d: "parse_xml pkg' comments_path = Some comments_doc"
    using assms(1) by (simp add: parse_xml_def)
  from a b c d show ?thesis by blast
qed

theorem clean_orphaned_comments_resolves_witness:
  "parse_xml pkg_orphan comments_path = Some comments_one \<and>
   clean_orphaned_comments pkg_orphan = (2, pkg_orphan_after) \<and>
   valid_para_ids comments_one = {''0A1B''} \<and>
   durable_ids_from_valid pkg_orphan = {''D1''} \<and>
   parse_xml pkg_orphan_after comments_path = Some comments_one"
proof -
  have a: "parse_xml pkg_orphan comments_path = Some comments_one" by code_simp
  have b: "clean_orphaned_comments pkg_orphan = (2, pkg_orphan_after)" by code_simp
  have c: "valid_para_ids comments_one = {''0A1B''}" by code_simp
  have d: "durable_ids_from_valid pkg_orphan = {''D1''}" by code_simp
  from clean_orphaned_comments_resolves [OF a b] a b c d show ?thesis by simp
qed

text \<open>
  The claim as the spec words it fails where the code declines to clean: no extended entry
  carries a durable id, so the set of valid durable ids is empty, and the extensible entry
  with durable id \<open>D9\<close>, which no live comment reaches, stays in the part.
\<close>

theorem clean_orphaned_comments_keeps_unlinked:
  "clean_orphaned_comments pkg_unlinked = (0, pkg_unlinked) \<and>
   durable_ids_from_valid pkg_unlinked = {} \<and>
   parse_xml pkg_unlinked extensible_path = Some extensible_d9 \<and>
   map (\<lambda>e. getAttribute e ''w16cex:durableId'')
     (get_elements_by_tag extensible_d9 ''w16cex:commentExtensible'') = [''D9'']"
  by code_simp

text \<open>
  Claim C7. After the orphan cleanup the extensible part is the part it was with
  \<^verbatim>\<open>removeChild\<close> applied to exactly the entries whose durableId is present, is not in the
  set of valid durable ids, and that set is not empty. With an empty set the part is
  what it was: no entry is removed.
\<close>

theorem clean_orphaned_comments_extensible:
  assumes "clean_orphaned_comments pkg = (n, pkg')"
    and "parse_xml pkg extensible_path = Some ext_doc"
  shows
    "map_of (files pkg') extensible_path =
       (let gone = filter (\<lambda>el. getAttribute el ''w16cex:durableId'' \<noteq> [] \<and>
                                durable_ids_from_valid pkg \<noteq> {} \<and>
                                getAttribute el ''w16cex:durableId'' \<notin> durable_ids_from_valid pkg)
                     (get_elements_by_tag ext_doc ''w16cex:commentExtensible'')
        in if gone = [] then Some (Xml ext_doc)
           else Some (to_part (fold (\<lambda>el. removeChild (ref el)) gone ext_doc))) \<and>
     (durable_ids_from_valid pkg = {} \<longrightarrow>
        map_of (files pkg') extensible_path = Some (Xml ext_doc))"
proof (cases "parse_xml pkg comments_path")
  case None
  then have "pkg' = pkg" "durable_ids_from_valid pkg = {}"
    using assms(1) by (simp_all add: clean_orphaned_comments_no_comments durable_ids_from_valid_def)
  with assms(2) show ?thesis by (simp add: parse_xml_Some_map_of)
next
  case (Some comments_doc)
  note eq = clean_orphaned_comments_eq [OF Some assms(1)]
  have m: "map_of (files pkg) extensible_path = Some (Xml ext_doc)"
    using assms(2) by (simp add: parse_xml_Some_map_of)
  have "extensible_orphan (durable_ids_from_valid pkg) =
          (\<lambda>el. getAttribute el ''w16cex:durableId'' \<noteq> [] \<and> durable_ids_from_valid pkg \<noteq> {} \<and>
                getAttribute el ''w16cex:durableId'' \<notin> durable_ids_from_valid pkg)"
    by (simp add: extensible_orphan_def fun_eq_iff)
  with eq(1) [of extensible_path] eq(5) m show ?thesis
    by (simp add: cleaned_def remove_where_def Let_def)
qed

theorem clean_orphaned_comments_extensible_witness:
  "clean_orphaned_comments pkg_unlinked = (0, pkg_unlinked) \<and>
   parse_xml pkg_unlinked extensible_path = Some extensible_d9 \<and>
   durable_ids_from_valid pkg_unlinked = {} \<and>
   map_of (files pkg_unlinked) extensible_path = Some (Xml extensible_d9)"
proof -
  have a: "clean_orphaned_comments pkg_unlinked = (0, pkg_unlinked)" by code_simp
  have b: "parse_xml pkg_unlinked extensible_path = Some extensible_d9" by code_simp
  have c: "durable_ids_from_valid pkg_unlinked = {}" by code_simp
  from clean_orphaned_comments_extensible [OF a b] a b c show ?thesis by simp
qed

section \<open>\<^verbatim>\<open>int(str(n))\<close> gives \<open>n\<close> back\<close>

lemma is_digit_char_of: "(d::nat) < 10 \<Longrightarrow> is_digit (char_of (48 + d))"
  by (simp add: is_digit_def Let_def)

lemma digit_of_char_of: "(d::nat) < 10 \<Longrightarrow> digit_of (char_of (48 + d)) = d"
  by (simp add: digit_of_def)

lemma digits_all_digit: "c \<in> set (digits n) \<Longrightarrow> is_digit c"
proof (induction n rule: digits.induct)
  case (1 n)
  show ?case
  proof (cases "n < 10")
    case True
    with "1.prems" show ?thesis by (simp add: digits.simps [of n] is_digit_char_of)
  next
    case False
    with "1.prems" "1.IH" show ?thesis
      by (auto simp: digits.simps [of n] is_digit_char_of)
  qed
qed

lemma digits_nonempty: "digits n \<noteq> []"
  by (subst digits.simps) simp

lemma digits_value_append:
  "\<forall>c \<in> set xs. is_digit c \<Longrightarrow>
     digits_value acc (xs @ ys) =
       (case digits_value acc xs of None \<Rightarrow> None | Some v \<Rightarrow> digits_value v ys)"
  by (induction xs arbitrary: acc) auto

lemma digits_value_digits: "digits_value acc (digits n) = Some (acc * 10 ^ length (digits n) + n)"
proof (induction n arbitrary: acc rule: digits.induct)
  case (1 n)
  show ?case
  proof (cases "n < 10")
    case True
    then show ?thesis
      by (simp add: digits.simps [of n] is_digit_char_of digit_of_char_of)
  next
    case False
    have d: "\<forall>c \<in> set (digits (n div 10)). is_digit c" using digits_all_digit by blast
    have m: "n mod 10 < 10" by simp
    have "digits_value acc (digits n) =
            digits_value acc (digits (n div 10) @ [char_of (48 + n mod 10)])"
      using False by (simp add: digits.simps [of n])
    also have "\<dots> = Some (10 * (acc * 10 ^ length (digits (n div 10)) + n div 10) + n mod 10)"
      using "1.IH" [OF False, of acc] m
      by (simp add: digits_value_append [OF d] is_digit_char_of digit_of_char_of)
    also have "10 * (acc * 10 ^ length (digits (n div 10)) + n div 10) + n mod 10
                 = acc * 10 ^ length (digits n) + n"
      using False by (simp add: digits.simps [of n] algebra_simps)
    finally show ?thesis .
  qed
qed

lemma unsigned_value_digits: "unsigned_value (digits n) = Some n"
proof -
  have "hd (digits n) \<in> set (digits n)" using digits_nonempty by simp
  then have "is_digit (hd (digits n))" by (rule digits_all_digit)
  then show ?thesis
    using digits_value_digits [of 0 n] by (simp add: unsigned_value_def digits_nonempty)
qed

lemma digit_not_space: "is_digit c \<Longrightarrow> \<not> is_space c"
  by (auto simp: is_digit_def is_space_def Let_def)

lemma digit_not_sign: "is_digit c \<Longrightarrow> c \<noteq> CHR ''-'' \<and> c \<noteq> CHR ''+''"
  by (auto simp: is_digit_def Let_def)

lemma py_strip_no_space:
  assumes "xs \<noteq> []" "\<not> is_space (hd xs)" "\<not> is_space (last xs)"
  shows "py_strip xs = xs"
proof -
  from assms(1,2) have a: "dropWhile is_space xs = xs" by (cases xs) auto
  from assms(1,3) have "dropWhile is_space (rev xs) = rev xs"
    by (cases "rev xs") (auto simp: last_rev [symmetric] simp del: last_rev)
  with a show ?thesis by (simp add: py_strip_def)
qed

lemma py_strip_digits: "py_strip (digits n) = digits n"
proof (rule py_strip_no_space [OF digits_nonempty])
  have "hd (digits n) \<in> set (digits n)" "last (digits n) \<in> set (digits n)"
    using digits_nonempty by simp_all
  then show "\<not> is_space (hd (digits n))" "\<not> is_space (last (digits n))"
    using digits_all_digit digit_not_space by blast+
qed

lemma py_strip_minus_digits: "py_strip (CHR ''-'' # digits n) = CHR ''-'' # digits n"
proof (rule py_strip_no_space)
  show "CHR ''-'' # digits n \<noteq> []" by simp
  show "\<not> is_space (hd (CHR ''-'' # digits n))" by (simp add: is_space_def)
  have "last (digits n) \<in> set (digits n)" using digits_nonempty by simp
  then have "\<not> is_space (last (digits n))" using digits_all_digit digit_not_space by blast
  then show "\<not> is_space (last (CHR ''-'' # digits n))" by (simp add: digits_nonempty)
qed

lemma py_int_py_str: "py_int (py_str i) = Some i"
proof (cases "i < 0")
  case True
  then show ?thesis
    by (simp add: py_int_def py_str_def py_strip_minus_digits unsigned_value_digits)
next
  case False
  obtain c r where cr: "digits (nat i) = c # r" using digits_nonempty by (cases "digits (nat i)") auto
  then have "c \<in> set (digits (nat i))" by simp
  then have "c \<noteq> CHR ''-'' \<and> c \<noteq> CHR ''+''" using digits_all_digit digit_not_sign by blast
  moreover have "unsigned_value (c # r) = Some (nat i)"
    using unsigned_value_digits [of "nat i"] cr by simp
  ultimately show ?thesis
    using False cr py_strip_digits [of "nat i"] by (simp add: py_int_def py_str_def)
qed

lemma py_str_nonempty: "py_str i \<noteq> []"
  by (simp add: py_str_def digits_nonempty)

lemma py_int_Nil [simp]: "py_int [] = None"
  by (simp add: py_int_def py_strip_def)

section \<open>The identifier index\<close>

text \<open>The integer id of an element, and the (tag, element) pairs in the order in which
  \<^verbatim>\<open>collect_w_ids\<close> visits them.\<close>

definition int_id :: "node \<Rightarrow> int option" where
  "int_id el = py_int (getAttribute el ''w:id'')"

definition entries :: "document \<Rightarrow> string list \<Rightarrow> (string \<times> node) list" where
  "entries doc tags = concat (map (\<lambda>tg. map (Pair tg) (get_elements_by_tag doc tg)) tags)"

definition with_id :: "int \<Rightarrow> (string \<times> node) list \<Rightarrow> (string \<times> node) list" where
  "with_id i xs = filter (\<lambda>x. int_id (snd x) = Some i) xs"

lemma collect_el_int_id:
  "collect_el tg el m =
     (case int_id el of None \<Rightarrow> m | Some i \<Rightarrow> setdefault_append i (tg, el) m)"
  by (simp add: collect_el_def int_id_def Let_def)

lemma collect_w_ids_entries:
  "collect_w_ids doc tags = fold (\<lambda>x. collect_el (fst x) (snd x)) (entries doc tags) []"
proof -
  have "fold (\<lambda>tg m. fold (collect_el tg) (get_elements_by_tag doc tg) m) tags m0 =
          fold (\<lambda>x. collect_el (fst x) (snd x)) (entries doc tags) m0" for m0
    by (induction tags arbitrary: m0) (simp_all add: entries_def fold_map comp_def)
  then show ?thesis by (simp add: collect_w_ids_def)
qed

lemma map_of_setdefault_append:
  "map_of (setdefault_append k v m) i =
     (if i = k then Some ((case map_of m k of None \<Rightarrow> [] | Some vs \<Rightarrow> vs) @ [v])
      else map_of m i)"
  by (induction m) auto

lemma keys_setdefault_append:
  "fst ` set (setdefault_append k v m) = insert k (fst ` set m)"
proof -
  have "map fst (setdefault_append k v m) =
          (if k \<in> fst ` set m then map fst m else map fst m @ [k])"
    by (induction m) force+
  then have "set (map fst (setdefault_append k v m)) = insert k (set (map fst m))"
    by (auto split: if_splits)
  then show ?thesis unfolding set_map .
qed

lemma map_of_fold_collect:
  "map_of (fold (\<lambda>x. collect_el (fst x) (snd x)) xs m) i =
     (if with_id i xs = [] then map_of m i
      else Some ((case map_of m i of None \<Rightarrow> [] | Some vs \<Rightarrow> vs) @ with_id i xs))"
proof (induction xs arbitrary: m)
  case Nil
  show ?case by (simp add: with_id_def)
next
  case (Cons x xs)
  show ?case
  proof (cases "int_id (snd x)")
    case None
    then show ?thesis using Cons [of m] by (simp add: collect_el_int_id with_id_def)
  next
    case (Some k)
    then show ?thesis
      using Cons [of "setdefault_append k (fst x, snd x) m"]
      by (auto simp: collect_el_int_id with_id_def map_of_setdefault_append split: option.splits)
  qed
qed

lemma keys_fold_collect:
  "fst ` set (fold (\<lambda>x. collect_el (fst x) (snd x)) xs m) =
     fst ` set m \<union> {i. \<exists>x \<in> set xs. int_id (snd x) = Some i}"
proof (induction xs arbitrary: m)
  case (Cons x xs)
  show ?case
  proof (cases "int_id (snd x)")
    case None
    then show ?thesis using Cons [of m] by (auto simp: collect_el_int_id)
  next
    case (Some k)
    then show ?thesis
      using Cons [of "setdefault_append k (fst x, snd x) m"]
      by (auto simp: collect_el_int_id keys_setdefault_append)
  qed
qed simp

lemma map_of_collect_w_ids:
  "map_of (collect_w_ids doc tags) i =
     (if with_id i (entries doc tags) = [] then None else Some (with_id i (entries doc tags)))"
  by (simp add: collect_w_ids_entries map_of_fold_collect)

lemma set_entries:
  "set (entries doc tags) = {(tag e, e) | e. e \<in> set (elements doc) \<and> tag e \<in> set tags}"
  by (auto simp: entries_def get_elements_by_tag_def)

lemma id_set_eq:
  "id_set doc tags = {i. \<exists>e \<in> set (elements doc). tag e \<in> set tags \<and> int_id e = Some i}"
proof -
  have "id_set doc tags = {i. \<exists>x \<in> set (entries doc tags). int_id (snd x) = Some i}"
    using keys_fold_collect [of "entries doc tags" "[]"]
    by (simp add: id_set_def collect_w_ids_entries)
  then show ?thesis by (auto simp: set_entries)
qed

lemma id_set_append: "id_set doc (xs @ ys) = id_set doc xs \<union> id_set doc ys"
  by (auto simp: id_set_eq)

lemma collect_w_ids_Nil_iff: "collect_w_ids doc tags = [] \<longleftrightarrow> id_set doc tags = {}"
  by (simp add: id_set_def)

lemma fold_max_Max: "ks \<noteq> [] \<Longrightarrow> fold max (tl ks) (hd ks) = Max (set ks)"
  by (cases ks) (simp_all add: Max.set_eq_fold [symmetric])

lemma max_id_ge:
  assumes "i \<in> id_set doc BOOKMARK_TAGS \<union> id_set doc COMMENT_DOC_TAGS \<union> id_set doc CHANGE_TAGS"
  shows "i \<le> max_id doc"
proof -
  let ?ks = "map fst (collect_w_ids doc (BOOKMARK_TAGS @ COMMENT_DOC_TAGS @ CHANGE_TAGS))"
  from assms have i: "i \<in> set ?ks"
    using id_set_append [of doc BOOKMARK_TAGS "COMMENT_DOC_TAGS @ CHANGE_TAGS"]
          id_set_append [of doc COMMENT_DOC_TAGS CHANGE_TAGS]
    by (simp add: id_set_def)
  then have "?ks \<noteq> []" by auto
  then have "max_id doc = Max (set ?ks)" by (simp add: max_id_def Let_def fold_max_Max)
  with i show ?thesis by simp
qed

text \<open>The three kinds have no tag in common.\<close>

lemma tags_disjoint:
  "set BOOKMARK_TAGS \<inter> set COMMENT_DOC_TAGS = {}"
  "set BOOKMARK_TAGS \<inter> set CHANGE_TAGS = {}"
  "set COMMENT_DOC_TAGS \<inter> set CHANGE_TAGS = {}"
  by (simp_all add: BOOKMARK_TAGS_def COMMENT_DOC_TAGS_def CHANGE_TAGS_def)

subsection \<open>The two mappings\<close>

lemma build_remap_keys:
  "map fst (fst (build_remap xs coll nxt acc)) = map fst acc @ filter coll xs"
  by (induction xs arbitrary: nxt acc) auto

lemma build_remap_next:
  "snd (build_remap xs coll nxt acc) = nxt + int (length (filter coll xs))"
  by (induction xs arbitrary: nxt acc) auto

lemma build_remap_values:
  "(old, new) \<in> set (fst (build_remap xs coll nxt acc)) \<Longrightarrow>
     (old, new) \<in> set acc \<or> (nxt \<le> new \<and> new < snd (build_remap xs coll nxt acc))"
proof (induction xs arbitrary: nxt acc)
  case (Cons x xs)
  show ?case
  proof (cases "coll x")
    case True
    with Cons.prems have "(old, new) \<in> set (fst (build_remap xs coll (nxt + 1) (acc @ [(x, nxt)])))"
      by simp
    from Cons.IH [OF this] True show ?thesis
      by (auto simp: build_remap_next)
  next
    case False
    with Cons show ?thesis by simp
  qed
qed simp

lemma build_remap_distinct_values:
  "distinct (map snd acc) \<Longrightarrow> \<forall>v \<in> snd ` set acc. v < nxt \<Longrightarrow>
     distinct (map snd (fst (build_remap xs coll nxt acc)))"
proof (induction xs arbitrary: nxt acc)
  case (Cons x xs)
  show ?case
  proof (cases "coll x")
    case True
    have "distinct (map snd (acc @ [(x, nxt)]))" using Cons.prems by auto
    moreover have "\<forall>v \<in> snd ` set (acc @ [(x, nxt)]). v < nxt + 1" using Cons.prems by auto
    ultimately show ?thesis using Cons.IH [of "acc @ [(x, nxt)]" "nxt + 1"] True by simp
  next
    case False
    with Cons show ?thesis by simp
  qed
qed simp

lemma sorted_ids: "set (sort (remdups (map fst (collect_w_ids doc tags)))) = id_set doc tags"
  by (simp add: id_set_def)

lemma comment_id_remap_props:
  shows "fst ` set (fst (comment_id_remap doc)) =
           {i \<in> id_set doc COMMENT_DOC_TAGS. i \<in> id_set doc BOOKMARK_TAGS \<or> i \<in> id_set doc CHANGE_TAGS}"
    and "distinct (map fst (fst (comment_id_remap doc)))"
    and "(old, new) \<in> set (fst (comment_id_remap doc)) \<Longrightarrow>
           max_id doc < new \<and> new < snd (comment_id_remap doc)"
    and "distinct (map snd (fst (comment_id_remap doc)))"
proof -
  let ?xs = "sort (remdups (map fst (collect_w_ids doc COMMENT_DOC_TAGS)))"
  let ?coll = "\<lambda>old_id. old_id \<in> id_set doc BOOKMARK_TAGS \<or> old_id \<in> id_set doc CHANGE_TAGS"
  have k: "map fst (fst (comment_id_remap doc)) = filter ?coll ?xs"
    by (simp add: comment_id_remap_def build_remap_keys)
  have "fst ` set (fst (comment_id_remap doc)) = set (map fst (fst (comment_id_remap doc)))"
    by simp
  also have "\<dots> = {i \<in> id_set doc COMMENT_DOC_TAGS. ?coll i}"
    unfolding k using sorted_ids [of doc COMMENT_DOC_TAGS] by auto
  finally show "fst ` set (fst (comment_id_remap doc)) =
           {i \<in> id_set doc COMMENT_DOC_TAGS. i \<in> id_set doc BOOKMARK_TAGS \<or> i \<in> id_set doc CHANGE_TAGS}" .
  show "distinct (map fst (fst (comment_id_remap doc)))"
    unfolding k by simp
  show "max_id doc < new \<and> new < snd (comment_id_remap doc)"
    if "(old, new) \<in> set (fst (comment_id_remap doc))"
    using build_remap_values [of old new ?xs ?coll "max_id doc + 1" "[]"] that
    by (simp add: comment_id_remap_def)
  show "distinct (map snd (fst (comment_id_remap doc)))"
    unfolding comment_id_remap_def by (rule build_remap_distinct_values) simp_all
qed

lemma comment_id_remap_next: "max_id doc < snd (comment_id_remap doc)"
  by (simp add: comment_id_remap_def build_remap_next)

lemma change_id_remap_props:
  shows "fst ` set (fst (change_id_remap doc)) =
           {i \<in> id_set doc CHANGE_TAGS. i \<in> id_set doc BOOKMARK_TAGS \<or> i \<in> id_set doc COMMENT_DOC_TAGS}"
    and "distinct (map fst (fst (change_id_remap doc)))"
    and "(old, new) \<in> set (fst (change_id_remap doc)) \<Longrightarrow> snd (comment_id_remap doc) \<le> new"
    and "distinct (map snd (fst (change_id_remap doc)))"
proof -
  let ?xs = "sort (remdups (map fst (collect_w_ids doc CHANGE_TAGS)))"
  let ?coll = "\<lambda>old_id. old_id \<in> id_set doc BOOKMARK_TAGS \<or> old_id \<in> id_set doc COMMENT_DOC_TAGS"
  have k: "map fst (fst (change_id_remap doc)) = filter ?coll ?xs"
    by (simp add: change_id_remap_def build_remap_keys)
  have "fst ` set (fst (change_id_remap doc)) = set (map fst (fst (change_id_remap doc)))"
    by simp
  also have "\<dots> = {i \<in> id_set doc CHANGE_TAGS. ?coll i}"
    unfolding k using sorted_ids [of doc CHANGE_TAGS] by auto
  finally show "fst ` set (fst (change_id_remap doc)) =
           {i \<in> id_set doc CHANGE_TAGS. i \<in> id_set doc BOOKMARK_TAGS \<or> i \<in> id_set doc COMMENT_DOC_TAGS}" .
  show "distinct (map fst (fst (change_id_remap doc)))"
    unfolding k by simp
  show "snd (comment_id_remap doc) \<le> new" if "(old, new) \<in> set (fst (change_id_remap doc))"
    using build_remap_values [of old new ?xs ?coll "snd (comment_id_remap doc)" "[]"] that
    by (simp add: change_id_remap_def)
  show "distinct (map snd (fst (change_id_remap doc)))"
    unfolding change_id_remap_def by (rule build_remap_distinct_values) simp_all
qed

section \<open>Renumbering\<close>

text \<open>The objects indexed under an id, and the id that the renumbering loop finally writes
  to an object.\<close>

definition refs_of :: "id_map \<Rightarrow> int \<Rightarrow> nat set" where
  "refs_of ids old = (case map_of ids old of None \<Rightarrow> {} | Some els \<Rightarrow> ref ` snd ` set els)"

fun new_id_for :: "(int \<times> int) list \<Rightarrow> id_map \<Rightarrow> nat \<Rightarrow> int option" where
  "new_id_for [] ids r = None"
| "new_id_for ((old, new) # rest) ids r =
     (case new_id_for rest ids r of
        Some v \<Rightarrow> Some v
      | None \<Rightarrow> if r \<in> refs_of ids old then Some new else None)"

definition put_id :: "int option \<Rightarrow> (string \<times> string) list \<Rightarrow> (string \<times> string) list" where
  "put_id v a = (case v of None \<Rightarrow> a | Some new \<Rightarrow> AList.update ''w:id'' (py_str new) a)"

definition id_of_attrs :: "(string \<times> string) list \<Rightarrow> int option" where
  "id_of_attrs a = py_int (case map_of a ''w:id'' of None \<Rightarrow> [] | Some v \<Rightarrow> v)"

lemma int_id_attrs: "int_id e = id_of_attrs (attrs e)"
  by (simp add: int_id_def id_of_attrs_def getAttribute_def)

lemma id_of_attrs_put_id:
  "id_of_attrs (put_id v a) = (case v of None \<Rightarrow> id_of_attrs a | Some new \<Rightarrow> Some new)"
  by (simp add: put_id_def id_of_attrs_def update_conv' py_int_py_str split: option.splits)

lemma set_ids_eq:
  "set_ids els v (doc, n) =
     (map_attrs (\<lambda>r t a. if r \<in> ref ` snd ` set els then AList.update ''w:id'' v a else a) doc,
      n + length els)"
proof (induction els arbitrary: doc n)
  case Nil
  show ?case by (simp add: map_attrs_ident)
next
  case (Cons x els)
  obtain tg el where x: "x = (tg, el)" by (cases x)
  have "map_attrs (\<lambda>r t a. if r \<in> ref ` snd ` set els then AList.update ''w:id'' v a else a)
          (setAttribute (ref el) ''w:id'' v doc) =
        map_attrs (\<lambda>r t a. if r \<in> ref ` snd ` set (x # els) then AList.update ''w:id'' v a else a) doc"
    unfolding setAttribute_map_attrs map_attrs_comp
    by (rule map_attrs_cong) (auto simp: x)
  then show ?case using Cons [of "setAttribute (ref el) ''w:id'' v doc" "n + 1"] by (simp add: x)
qed

definition indexed :: "id_map \<Rightarrow> int \<Rightarrow> nat" where
  "indexed ids old = (case map_of ids old of None \<Rightarrow> 0 | Some els \<Rightarrow> length els)"

lemma renumber_eq:
  "renumber remap ids (doc, n) =
     (map_attrs (\<lambda>r t a. put_id (new_id_for remap ids r) a) doc,
      n + sum_list (map (\<lambda>p. indexed ids (fst p)) remap))"
proof (induction remap arbitrary: doc n)
  case Nil
  show ?case by (simp add: put_id_def map_attrs_ident)
next
  case (Cons p remap)
  obtain old new where p: "p = (old, new)" by (cases p)
  let ?f = "\<lambda>r (t::string) a. if r \<in> refs_of ids old then AList.update ''w:id'' (py_str new) a else a"
  have st: "(case map_of ids old of None \<Rightarrow> (doc, n) | Some els \<Rightarrow> set_ids els (py_str new) (doc, n))
              = (map_attrs ?f doc, n + indexed ids old)"
    by (auto simp: set_ids_eq refs_of_def indexed_def map_attrs_ident split: option.splits)
  have "map_attrs (\<lambda>r t a. put_id (new_id_for remap ids r) a) (map_attrs ?f doc) =
        map_attrs (\<lambda>r t a. put_id (new_id_for (p # remap) ids r) a) doc"
    unfolding map_attrs_comp
    by (rule map_attrs_cong) (auto simp: p put_id_def split: option.splits)
  then show ?case
    using Cons [of "map_attrs ?f doc" "n + indexed ids old"] st by (simp add: p)
qed

lemma wf_doc_same:
  "wf_doc doc \<Longrightarrow> e \<in> set (elements doc) \<Longrightarrow> e' \<in> set (elements doc) \<Longrightarrow> ref e = ref e'
     \<Longrightarrow> e = e'"
  unfolding wf_doc_def distinct_map by (auto dest: inj_onD)

lemma refs_of_collect:
  "refs_of (collect_w_ids doc tags) old =
     {ref e | e. e \<in> set (elements doc) \<and> tag e \<in> set tags \<and> int_id e = Some old}"
proof -
  have "refs_of (collect_w_ids doc tags) old = ref ` snd ` set (with_id old (entries doc tags))"
    by (simp add: refs_of_def map_of_collect_w_ids)
  also have "\<dots> = {ref e | e. e \<in> set (elements doc) \<and> tag e \<in> set tags \<and> int_id e = Some old}"
    by (force simp: with_id_def set_entries)
  finally show ?thesis .
qed

lemma in_refs_of_collect:
  assumes "wf_doc doc" "e \<in> set (elements doc)"
  shows "ref e \<in> refs_of (collect_w_ids doc tags) old \<longleftrightarrow> tag e \<in> set tags \<and> int_id e = Some old"
  using assms wf_doc_same [OF assms(1) assms(2)] by (auto simp: refs_of_collect)

lemma new_id_for_collect:
  assumes "wf_doc doc" "e \<in> set (elements doc)" "distinct (map fst remap)"
  shows "new_id_for remap (collect_w_ids doc tags) (ref e) =
           (if tag e \<in> set tags
            then (case int_id e of None \<Rightarrow> None | Some old \<Rightarrow> map_of remap old)
            else None)"
  using assms(3)
proof (induction remap)
  case Nil
  show ?case by (simp split: option.splits)
next
  case (Cons p remap)
  obtain old new where p: "p = (old, new)" by (cases p)
  from Cons.prems p have d: "distinct (map fst remap)" "map_of remap old = None"
    by (auto simp: map_of_eq_None_iff)
  show ?case
    using Cons.IH [OF d(1)] d(2) in_refs_of_collect [OF assms(1,2), of tags old]
    by (auto simp: p split: option.splits)
qed

text \<open>The attributes of an element after both renumbering loops.\<close>

definition target :: "document \<Rightarrow> string \<Rightarrow> (string \<times> string) list \<Rightarrow> int option" where
  "target doc t a =
     (if t \<in> set COMMENT_DOC_TAGS
      then (case id_of_attrs a of None \<Rightarrow> None | Some old \<Rightarrow> map_of (fst (comment_id_remap doc)) old)
      else if t \<in> set CHANGE_TAGS
      then (case id_of_attrs a of None \<Rightarrow> None | Some old \<Rightarrow> map_of (fst (change_id_remap doc)) old)
      else None)"

definition comment_target :: "document \<Rightarrow> string \<Rightarrow> (string \<times> string) list \<Rightarrow> int option" where
  "comment_target doc t a =
     (if t \<in> set COMMENT_DOC_TAGS
      then (case id_of_attrs a of None \<Rightarrow> None | Some old \<Rightarrow> map_of (fst (comment_id_remap doc)) old)
      else None)"

lemma renumber_comment_nodes_eq:
  assumes "wf_doc doc"
  shows "fst (renumber_comment_nodes doc) = map_attrs (\<lambda>r t a. put_id (comment_target doc t a) a) doc"
proof -
  have "map_attrs (\<lambda>r t a. put_id (new_id_for (fst (comment_id_remap doc))
                                      (collect_w_ids doc COMMENT_DOC_TAGS) r) a) doc
          = map_attrs (\<lambda>r t a. put_id (comment_target doc t a) a) doc"
  proof (rule map_attrs_cong)
    fix e assume e: "e \<in> set (elements doc)"
    show "put_id (new_id_for (fst (comment_id_remap doc)) (collect_w_ids doc COMMENT_DOC_TAGS) (ref e)) (attrs e)
            = put_id (comment_target doc (tag e) (attrs e)) (attrs e)"
      using new_id_for_collect [OF assms e comment_id_remap_props(2), where tags = COMMENT_DOC_TAGS]
      by (simp add: comment_target_def int_id_attrs)
  qed
  then show ?thesis by (simp add: renumber_comment_nodes_def renumber_eq)
qed

lemma renumber_change_nodes_eq:
  assumes "wf_doc doc"
  shows "fst (renumber_change_nodes doc (fst (renumber_comment_nodes doc))) =
           map_attrs (\<lambda>r t a. put_id (target doc t a) a) doc"
proof -
  have "map_attrs (\<lambda>r t a. put_id (new_id_for (fst (change_id_remap doc))
                                      (collect_w_ids doc CHANGE_TAGS) r) a)
          (map_attrs (\<lambda>r t a. put_id (comment_target doc t a) a) doc)
          = map_attrs (\<lambda>r t a. put_id (target doc t a) a) doc"
    unfolding map_attrs_comp
  proof (rule map_attrs_cong)
    fix e assume e: "e \<in> set (elements doc)"
    have "tag e \<in> set COMMENT_DOC_TAGS \<Longrightarrow> tag e \<notin> set CHANGE_TAGS"
      using tags_disjoint(3) by blast
    then show "put_id (new_id_for (fst (change_id_remap doc)) (collect_w_ids doc CHANGE_TAGS) (ref e))
             (put_id (comment_target doc (tag e) (attrs e)) (attrs e))
            = put_id (target doc (tag e) (attrs e)) (attrs e)"
      using new_id_for_collect [OF assms e change_id_remap_props(2), where tags = CHANGE_TAGS]
      by (auto simp: comment_target_def target_def int_id_attrs put_id_def split: option.splits)
  qed
  then show ?thesis
    by (simp add: renumber_change_nodes_def renumber_eq renumber_comment_nodes_eq [OF assms])
qed

lemma int_id_relabelled:
  "int_id (map_el (\<lambda>r t a. put_id (f t a) a) e) =
     (case f (tag e) (attrs e) of None \<Rightarrow> int_id e | Some new \<Rightarrow> Some new)"
  by (simp add: int_id_attrs id_of_attrs_put_id split: option.splits)

lemma id_set_relabelled:
  "id_set (map_attrs (\<lambda>r t a. put_id (f t a) a) doc) tags =
     {i. \<exists>e \<in> set (elements doc). tag e \<in> set tags \<and>
           (case f (tag e) (attrs e) of None \<Rightarrow> int_id e = Some i | Some new \<Rightarrow> i = new)}"
  by (auto simp: id_set_eq elements_map_attrs int_id_relabelled split: option.splits)

text \<open>After both loops the three id sets are pairwise disjoint.\<close>

lemma renumbered_no_collision:
  "\<not> has_collision (map_attrs (\<lambda>r t a. put_id (target doc t a) a) doc)"
proof -
  let ?doc' = "map_attrs (\<lambda>r t a. put_id (target doc t a) a) doc"
  let ?B = "id_set doc BOOKMARK_TAGS" and ?C = "id_set doc COMMENT_DOC_TAGS"
    and ?H = "id_set doc CHANGE_TAGS"
  have nb: "target doc (tag e) (attrs e) = None" if "tag e \<in> set BOOKMARK_TAGS" for e
    using that tags_disjoint(1,2) by (auto simp: target_def)
  have B: "id_set ?doc' BOOKMARK_TAGS = ?B"
    unfolding id_set_relabelled by (auto simp: nb id_set_eq)
  have C: "i \<in> ?C \<and> i \<notin> ?B \<and> i \<notin> ?H \<or>
           (\<exists>old. (old, i) \<in> set (fst (comment_id_remap doc)))"
    if "i \<in> id_set ?doc' COMMENT_DOC_TAGS" for i
  proof -
    from that obtain e where e: "e \<in> set (elements doc)" "tag e \<in> set COMMENT_DOC_TAGS"
      "case target doc (tag e) (attrs e) of None \<Rightarrow> int_id e = Some i | Some new \<Rightarrow> i = new"
      by (auto simp: id_set_relabelled)
    show ?thesis
    proof (cases "target doc (tag e) (attrs e)")
      case None
      with e have i: "int_id e = Some i" by simp
      with e have ic: "i \<in> ?C" by (auto simp: id_set_eq)
      from None e(2) i have "map_of (fst (comment_id_remap doc)) i = None"
        by (simp add: target_def int_id_attrs)
      then have "i \<notin> fst ` set (fst (comment_id_remap doc))" by (simp add: map_of_eq_None_iff)
      with ic show ?thesis by (simp add: comment_id_remap_props(1))
    next
      case (Some new)
      with e have "i = new" by simp
      moreover from Some e(2) obtain old where "map_of (fst (comment_id_remap doc)) old = Some new"
        by (auto simp: target_def split: option.splits)
      ultimately show ?thesis by (auto dest: map_of_SomeD)
    qed
  qed
  have H: "i \<in> ?H \<and> i \<notin> ?B \<and> i \<notin> ?C \<or>
           (\<exists>old. (old, i) \<in> set (fst (change_id_remap doc)))"
    if "i \<in> id_set ?doc' CHANGE_TAGS" for i
  proof -
    from that obtain e where e: "e \<in> set (elements doc)" "tag e \<in> set CHANGE_TAGS"
      "case target doc (tag e) (attrs e) of None \<Rightarrow> int_id e = Some i | Some new \<Rightarrow> i = new"
      by (auto simp: id_set_relabelled)
    have nc: "tag e \<notin> set COMMENT_DOC_TAGS" using e(2) tags_disjoint(3) by blast
    show ?thesis
    proof (cases "target doc (tag e) (attrs e)")
      case None
      with e have i: "int_id e = Some i" by simp
      with e have ic: "i \<in> ?H" by (auto simp: id_set_eq)
      from None e(2) nc i have "map_of (fst (change_id_remap doc)) i = None"
        by (simp add: target_def int_id_attrs)
      then have "i \<notin> fst ` set (fst (change_id_remap doc))" by (simp add: map_of_eq_None_iff)
      with ic show ?thesis by (simp add: change_id_remap_props(1))
    next
      case (Some new)
      with e have "i = new" by simp
      moreover from Some e(2) nc obtain old where "map_of (fst (change_id_remap doc)) old = Some new"
        by (auto simp: target_def split: option.splits)
      ultimately show ?thesis by (auto dest: map_of_SomeD)
    qed
  qed
  have fresh_c: "max_id doc < i \<and> i < snd (comment_id_remap doc)"
    if "(old, i) \<in> set (fst (comment_id_remap doc))" for old i
    using comment_id_remap_props(3) [OF that] .
  have fresh_h: "snd (comment_id_remap doc) \<le> i"
    if "(old, i) \<in> set (fst (change_id_remap doc))" for old i
    using change_id_remap_props(3) [OF that] .
  have le: "i \<le> max_id doc" if "i \<in> ?B \<or> i \<in> ?C \<or> i \<in> ?H" for i
    using max_id_ge [of i doc] that by auto
  have 1: "id_set ?doc' BOOKMARK_TAGS \<inter> id_set ?doc' COMMENT_DOC_TAGS = {}"
  proof (rule ccontr)
    assume "id_set ?doc' BOOKMARK_TAGS \<inter> id_set ?doc' COMMENT_DOC_TAGS \<noteq> {}"
    then obtain i where i: "i \<in> ?B" "i \<in> id_set ?doc' COMMENT_DOC_TAGS" using B by auto
    from C [OF i(2)] i(1) obtain old where "(old, i) \<in> set (fst (comment_id_remap doc))" by auto
    from fresh_c [OF this] le [of i] i(1) show False by simp
  qed
  have 2: "id_set ?doc' BOOKMARK_TAGS \<inter> id_set ?doc' CHANGE_TAGS = {}"
  proof (rule ccontr)
    assume "id_set ?doc' BOOKMARK_TAGS \<inter> id_set ?doc' CHANGE_TAGS \<noteq> {}"
    then obtain i where i: "i \<in> ?B" "i \<in> id_set ?doc' CHANGE_TAGS" using B by auto
    from H [OF i(2)] i(1) obtain old where "(old, i) \<in> set (fst (change_id_remap doc))" by auto
    from fresh_h [OF this] comment_id_remap_next [of doc] le [of i] i(1) show False by simp
  qed
  have 3: "id_set ?doc' COMMENT_DOC_TAGS \<inter> id_set ?doc' CHANGE_TAGS = {}"
  proof (rule ccontr)
    assume "id_set ?doc' COMMENT_DOC_TAGS \<inter> id_set ?doc' CHANGE_TAGS \<noteq> {}"
    then obtain i where i: "i \<in> id_set ?doc' COMMENT_DOC_TAGS" "i \<in> id_set ?doc' CHANGE_TAGS"
      by auto
    from C [OF i(1)] show False
    proof
      assume a: "i \<in> ?C \<and> i \<notin> ?B \<and> i \<notin> ?H"
      with H [OF i(2)] obtain old where "(old, i) \<in> set (fst (change_id_remap doc))" by auto
      from fresh_h [OF this] comment_id_remap_next [of doc] le [of i] a show False by simp
    next
      assume "\<exists>old. (old, i) \<in> set (fst (comment_id_remap doc))"
      then obtain old where o: "(old, i) \<in> set (fst (comment_id_remap doc))" by blast
      from H [OF i(2)] show False
      proof
        assume "i \<in> ?H \<and> i \<notin> ?B \<and> i \<notin> ?C"
        with fresh_c [OF o] le [of i] show False by simp
      next
        assume "\<exists>old. (old, i) \<in> set (fst (change_id_remap doc))"
        then obtain old' where "(old', i) \<in> set (fst (change_id_remap doc))" by blast
        from fresh_h [OF this] fresh_c [OF o] show False by simp
      qed
    qed
  qed
  from 1 2 3 show ?thesis by (simp add: has_collision_def)
qed

section \<open>ID deconfliction on the package\<close>

definition zero_summary :: deconflict_summary where
  "zero_summary = \<lparr>comments_renumbered = 0, changes_renumbered = 0\<rparr>"

text \<open>The document and the comments part after the pass.\<close>

definition relabelled :: "document \<Rightarrow> document" where
  "relabelled doc = map_attrs (\<lambda>r t a. put_id (target doc t a) a) doc"

definition mirrored :: "document \<Rightarrow> document \<Rightarrow> document" where
  "mirrored doc cdoc =
     renumber_comments (get_elements_by_tag cdoc ''w:comment'') (fst (comment_id_remap doc)) cdoc"

lemma has_collision_ids: "has_collision doc \<Longrightarrow>
  collect_w_ids doc (BOOKMARK_TAGS @ COMMENT_DOC_TAGS @ CHANGE_TAGS) \<noteq> []"
  by (auto simp: has_collision_def collect_w_ids_Nil_iff id_set_append)

lemma deconflict_ids_clean:
  "parse_xml pkg doc_path = None \<or>
   (\<exists>doc. parse_xml pkg doc_path = Some doc \<and> \<not> has_collision doc)
   \<Longrightarrow> deconflict_ids pkg = (zero_summary, pkg)"
  by (auto simp: deconflict_ids_def zero_summary_def Let_def)

lemma deconflict_ids_collision:
  assumes "parse_xml pkg doc_path = Some doc" "wf_doc doc" "has_collision doc"
  shows "deconflict_ids pkg =
     (\<lparr>comments_renumbered = snd (renumber_comment_nodes doc),
       changes_renumbered = snd (renumber_change_nodes doc (fst (renumber_comment_nodes doc)))\<rparr>,
      (case parse_xml pkg comments_path of
         None \<Rightarrow> write_xml (relabelled doc) doc_path pkg
       | Some cdoc \<Rightarrow>
           if fst (comment_id_remap doc) \<noteq> []
           then write_xml (mirrored doc cdoc) comments_path (write_xml (relabelled doc) doc_path pkg)
           else write_xml (relabelled doc) doc_path pkg))"
proof -
  have pe: "(if path_exists pkg comments_path then parse_xml pkg comments_path else None)
              = parse_xml pkg comments_path"
    by (auto simp: path_exists_def parse_xml_def)
  have d2: "fst (renumber_change_nodes doc (fst (renumber_comment_nodes doc))) = relabelled doc"
    by (simp add: relabelled_def renumber_change_nodes_eq [OF assms(2)])
  obtain d1 n1 where r1: "renumber_comment_nodes doc = (d1, n1)"
    by (cases "renumber_comment_nodes doc")
  obtain d2' n2 where r2: "renumber_change_nodes doc d1 = (d2', n2)"
    by (cases "renumber_change_nodes doc d1")
  from d2 r1 r2 have d2'': "d2' = relabelled doc" by simp
  show ?thesis
    using assms(1,3) has_collision_ids [OF assms(3)]
    by (simp add: deconflict_ids_def Let_def pe r1 r2 d2'' mirrored_def split: option.splits)
qed

lemma relabelled_no_collision: "\<not> has_collision (relabelled doc)"
  unfolding relabelled_def by (rule renumbered_no_collision)

lemma wf_doc_relabelled [simp]: "wf_doc (relabelled doc) = wf_doc doc"
  by (simp add: relabelled_def)

lemma list_ex_relabelled [simp]: "list_ex is_Elem (relabelled doc) = list_ex is_Elem doc"
  by (simp add: relabelled_def)

lemma has_collision_nonempty: "has_collision doc \<Longrightarrow> list_ex is_Elem doc"
proof -
  assume "has_collision doc"
  then obtain i where "i \<in> id_set doc (BOOKMARK_TAGS @ COMMENT_DOC_TAGS @ CHANGE_TAGS)"
    by (auto simp: has_collision_def id_set_append)
  then obtain e where "e \<in> set (elements doc)" by (auto simp: id_set_eq)
  then show ?thesis by (induction doc rule: elements.induct) auto
qed

text \<open>The document part after the pass.\<close>

lemma deconflict_ids_doc:
  assumes "parse_xml pkg doc_path = Some doc" "wf_doc doc"
    and "deconflict_ids pkg = (s, pkg')"
  shows "parse_xml pkg' doc_path = Some (if has_collision doc then relabelled doc else doc)"
proof (cases "has_collision doc")
  case False
  with assms show ?thesis using deconflict_ids_clean [of pkg] by auto
next
  case True
  have "parse_xml (write_xml (relabelled doc) doc_path pkg) doc_path = Some (relabelled doc)"
    using has_collision_nonempty [OF True] by (simp add: parse_xml_write_xml)
  then show ?thesis
    using assms(3) True
    by (auto simp: deconflict_ids_collision [OF assms(1,2) True] parse_xml_write_xml
             split: option.splits if_splits)
qed

lemma deconflict_ids_other:
  assumes "deconflict_ids pkg = (s, pkg')" "q \<noteq> doc_path" "q \<noteq> comments_path"
  shows "map_of (files pkg') q = map_of (files pkg) q"
  using assms
  by (auto simp: deconflict_ids_def Let_def map_of_files_write_xml
           split: option.splits if_splits prod.splits)

section \<open>The whitespace fix\<close>

definition needs_space :: "node \<Rightarrow> bool" where
  "needs_space wt =
     (text_of wt \<noteq> [] \<and> text_of wt \<noteq> py_strip (text_of wt) \<and> getAttribute wt ''xml:space'' = [])"

definition spaced :: "document \<Rightarrow> document" where
  "spaced doc =
     map_attrs (\<lambda>r t a. if r \<in> ref ` set (filter needs_space (get_elements_by_tag doc ''w:t''))
                        then AList.update ''xml:space'' ''preserve'' a else a) doc"

lemma fix_loop_eq:
  "fix_loop els (doc, n, m) =
     (map_attrs (\<lambda>r t a. if r \<in> ref ` set (filter needs_space els)
                         then AList.update ''xml:space'' ''preserve'' a else a) doc,
      n + length (filter needs_space els), m \<or> filter needs_space els \<noteq> [])"
proof (induction els arbitrary: doc n m)
  case Nil
  show ?case by (simp add: map_attrs_ident)
next
  case (Cons wt els)
  show ?case
  proof (cases "needs_space wt")
    case False
    then show ?thesis using Cons [of doc n m] by (auto simp: needs_space_def Let_def)
  next
    case True
    have "map_attrs (\<lambda>r t a. if r \<in> ref ` set (filter needs_space els)
                         then AList.update ''xml:space'' ''preserve'' a else a)
            (setAttribute (ref wt) ''xml:space'' ''preserve'' doc) =
          map_attrs (\<lambda>r t a. if r \<in> ref ` set (filter needs_space (wt # els))
                         then AList.update ''xml:space'' ''preserve'' a else a) doc"
      unfolding setAttribute_map_attrs map_attrs_comp
      by (rule map_attrs_cong) (auto simp: True)
    then show ?thesis
      using Cons [of "setAttribute (ref wt) ''xml:space'' ''preserve'' doc" "n + 1" True] True
      by (auto simp: needs_space_def Let_def)
  qed
qed

lemma fix_xml_space_eq:
  "fix_xml_space pkg =
     (case parse_xml pkg doc_path of
        None \<Rightarrow> (0, pkg)
      | Some doc \<Rightarrow>
          (length (filter needs_space (get_elements_by_tag doc ''w:t'')),
           if filter needs_space (get_elements_by_tag doc ''w:t'') \<noteq> []
           then write_xml (spaced doc) doc_path pkg else pkg))"
  by (simp add: fix_xml_space_def fix_loop_eq spaced_def split: option.splits)

lemma id_of_attrs_space [simp]:
  "id_of_attrs (AList.update ''xml:space'' v a) = id_of_attrs a"
  by (simp add: id_of_attrs_def update_conv')

lemma id_set_spaced [simp]: "id_set (spaced doc) tags = id_set doc tags"
  by (auto simp: id_set_eq spaced_def elements_map_attrs int_id_attrs)

lemma has_collision_spaced [simp]: "has_collision (spaced doc) = has_collision doc"
  by (simp add: has_collision_def)

lemma kids_text_map_attrs:
  "filter (\<lambda>c. \<not> is_Elem c) (map_attrs f ks) = filter (\<lambda>c. \<not> is_Elem c) ks"
  by (induction ks rule: elements.induct) auto

lemma text_of_map_el [simp]: "text_of (map_el f e) = text_of e"
  by (simp add: text_of_def kids_text_map_attrs)

text \<open>After the fix no \<^verbatim>\<open>w:t\<close> element needs the attribute.\<close>

lemma spaced_clean: "filter needs_space (get_elements_by_tag (spaced doc) ''w:t'') = []"
proof -
  have "\<not> needs_space e'" if "e' \<in> set (get_elements_by_tag (spaced doc) ''w:t'')" for e'
  proof -
    let ?f = "\<lambda>r (t::string) a. if r \<in> ref ` set (filter needs_space (get_elements_by_tag doc ''w:t''))
                        then AList.update ''xml:space'' ''preserve'' a else a"
    from that obtain e where e: "e \<in> set (get_elements_by_tag doc ''w:t'')" "e' = map_el ?f e"
      by (auto simp: spaced_def get_elements_by_tag_map_attrs)
    show ?thesis
    proof (cases "needs_space e")
      case True
      with e(1) have "ref e \<in> ref ` set (filter needs_space (get_elements_by_tag doc ''w:t''))"
        by auto
      then have "getAttribute e' ''xml:space'' = ''preserve''"
        by (simp add: e(2) getAttribute_def update_conv')
      then show ?thesis by (simp add: needs_space_def)
    next
      case False
      show ?thesis
      proof (cases "ref e \<in> ref ` set (filter needs_space (get_elements_by_tag doc ''w:t''))")
        case True
        then have "getAttribute e' ''xml:space'' = ''preserve''"
          by (simp add: e(2) getAttribute_def update_conv')
        then show ?thesis by (simp add: needs_space_def)
      next
        case False
        then have "getAttribute e' ''xml:space'' = getAttribute e ''xml:space''"
          by (simp add: e(2) getAttribute_def)
        with \<open>\<not> needs_space e\<close> show ?thesis by (simp add: needs_space_def e(2))
      qed
    qed
  qed
  then show ?thesis by (simp add: filter_empty_conv)
qed

lemma spaced_changed:
  assumes "filter needs_space (get_elements_by_tag doc ''w:t'') \<noteq> []"
  shows "spaced doc \<noteq> doc"
proof
  assume "spaced doc = doc"
  then have "filter needs_space (get_elements_by_tag (spaced doc) ''w:t'')
               = filter needs_space (get_elements_by_tag doc ''w:t'')" by simp
  with spaced_clean [of doc] assms show False by simp
qed

lemma list_ex_spaced [simp]: "list_ex is_Elem (spaced doc) = list_ex is_Elem doc"
  by (simp add: spaced_def)

lemma wf_doc_spaced [simp]: "wf_doc (spaced doc) = wf_doc doc"
  by (simp add: spaced_def)

section \<open>Parts a phase does not touch\<close>

lemma fold_dedup_rels_file_other:
  "fold dedup_rels_file ps (t, pkg) = (t', pkg') \<Longrightarrow> q \<notin> set ps \<Longrightarrow>
     map_of (files pkg') q = map_of (files pkg) q"
proof (induction ps arbitrary: t pkg)
  case (Cons p ps)
  obtain t1 pkg1 where s: "dedup_rels_file p (t, pkg) = (t1, pkg1)"
    by (cases "dedup_rels_file p (t, pkg)")
  from Cons.prems s have "fold dedup_rels_file ps (t1, pkg1) = (t', pkg')" "q \<notin> set ps" "q \<noteq> p"
    by auto
  with Cons.IH [of t1 pkg1] dedup_rels_file_step(2) [OF s, of q] show ?case by simp
qed simp

lemma dedup_relationships_other:
  assumes "dedup_relationships pkg = (s, pkg')" "q \<noteq> ct_path" "\<not> ends_with ''.rels'' q"
  shows "map_of (files pkg') q = map_of (files pkg) q"
proof -
  obtain ct pkg1 where c: "dedup_content_types pkg = (ct, pkg1)"
    by (cases "dedup_content_types pkg")
  obtain rels pkg2 where f: "fold dedup_rels_file (rglob_rels pkg1) (0, pkg1) = (rels, pkg2)"
    by (cases "fold dedup_rels_file (rglob_rels pkg1) (0, pkg1)")
  from assms(1) c f have p': "pkg' = pkg2" by (simp add: dedup_relationships_def)
  have "map_of (files pkg1) q = map_of (files pkg) q"
    using c assms(2) by (auto simp: dedup_content_types_eq map_of_files_write_xml
                          split: option.splits if_splits)
  moreover have "q \<notin> set (rglob_rels pkg1)" using assms(3) by (simp add: rglob_rels_iff)
  ultimately show ?thesis using fold_dedup_rels_file_other [OF f] p' by simp
qed

lemma clean_orphaned_comments_other:
  assumes "clean_orphaned_comments pkg = (n, pkg')"
    and "q \<noteq> ext_path" "q \<noteq> ids_path" "q \<noteq> extensible_path"
  shows "map_of (files pkg') q = map_of (files pkg) q"
proof (cases "parse_xml pkg comments_path")
  case None
  with assms(1) show ?thesis by (simp add: clean_orphaned_comments_no_comments)
next
  case (Some cdoc)
  from clean_orphaned_comments_eq(1) [OF Some assms(1), of q] assms(2-4) show ?thesis by simp
qed


section \<open>The validator's checks\<close>

lemma set_set_minus [simp]: "set (set_minus xs ys) = set xs - set ys"
  by (auto simp: set_minus_def)

text \<open>
  Claim C10. If \<^verbatim>\<open>comments.xml\<close> is absent or does not parse, the comment-artifact check
  returns no issue at all, whatever \<^verbatim>\<open>commentsExtended.xml\<close> and \<^verbatim>\<open>commentsIds.xml\<close>
  contain: their entries are not reported as orphans.
\<close>

theorem check_comment_artifacts_without_comments:
  assumes "\<not> path_exists pkg comments_path \<or> parse_xml pkg comments_path = None"
  shows "check_comment_artifacts pkg = []"
  using assms by (auto simp: check_comment_artifacts_def)

theorem check_comment_artifacts_without_comments_witness:
  "\<not> path_exists pkg_no_comments comments_path \<and>
   part_para_ids pkg_no_comments ext_path ''w15:commentEx'' ''w15:paraId'' = [''0A1B''] \<and>
   part_para_ids pkg_no_comments ids_path ''w16cid:commentId'' ''w16cid:paraId'' = [''0A1B''] \<and>
   check_comment_artifacts pkg_no_comments = []"
proof -
  have a: "\<not> path_exists pkg_no_comments comments_path"
    by (simp add: path_exists_def pkg_no_comments_def comments_path_def)
  have b: "part_para_ids pkg_no_comments ext_path ''w15:commentEx'' ''w15:paraId'' = [''0A1B'']"
    by code_simp
  have c: "part_para_ids pkg_no_comments ids_path ''w16cid:commentId'' ''w16cid:paraId'' = [''0A1B'']"
    by code_simp
  from a b c check_comment_artifacts_without_comments [of pkg_no_comments]
  show ?thesis by simp
qed

text \<open>
  Claim C6, as the code has it. The comment-range check reports an id with a start and no
  end, an id with a start and no reference, an id with an end and no start and an id with a
  reference and no start, one issue each and nothing else; there is no issue exactly when
  the three sets of ids are equal. So an id for which all three members are present gets no
  issue and every other id gets at least one, but for an id without a start a missing end
  or a missing reference is not reported on its own.
\<close>

theorem check_comment_consistency_issues:
  assumes "parse_xml pkg doc_path = Some doc"
  shows "set (check_comment_consistency pkg) =
           start_without_end ` (set (id_values doc ''w:commentRangeStart'') -
                                set (id_values doc ''w:commentRangeEnd'')) \<union>
           start_without_reference ` (set (id_values doc ''w:commentRangeStart'') -
                                      set (id_values doc ''w:commentReference'')) \<union>
           end_without_start ` (set (id_values doc ''w:commentRangeEnd'') -
                                set (id_values doc ''w:commentRangeStart'')) \<union>
           reference_without_start ` (set (id_values doc ''w:commentReference'') -
                                      set (id_values doc ''w:commentRangeStart'')) \<and>
         (check_comment_consistency pkg = [] \<longleftrightarrow>
            set (id_values doc ''w:commentRangeStart'') = set (id_values doc ''w:commentRangeEnd'') \<and>
            set (id_values doc ''w:commentRangeStart'') = set (id_values doc ''w:commentReference''))"
  using assms
  by (auto simp: check_comment_consistency_def Let_def set_minus_def filter_empty_conv)

theorem check_comment_consistency_issues_witness:
  "parse_xml pkg_ranges doc_path = Some doc_ranges \<and>
   set (check_comment_consistency pkg_ranges) =
     {start_without_end ''3'', start_without_reference ''3''} \<and>
   check_comment_consistency pkg_ranges \<noteq> []"
proof -
  have p: "parse_xml pkg_ranges doc_path = Some doc_ranges"
    by (simp add: parse_xml_def pkg_ranges_def doc_path_def)
  have s: "id_values doc_ranges ''w:commentRangeStart'' = [''2'', ''3'']"
    by code_simp
  have e: "id_values doc_ranges ''w:commentRangeEnd'' = [''2'']"
    by code_simp
  have r: "id_values doc_ranges ''w:commentReference'' = [''2'']"
    by code_simp
  from check_comment_consistency_issues [OF p] p show ?thesis
    unfolding s e r by auto
qed

text \<open>
  The claim as the spec words it fails: id 1 appears on a \<^verbatim>\<open>w:commentRangeEnd\<close> only, so its
  start and its reference are both missing, and the check reports the missing start alone.
\<close>

theorem check_comment_consistency_end_only:
  "id_values doc_end_only ''w:commentRangeEnd'' = [''1''] \<and>
   id_values doc_end_only ''w:commentRangeStart'' = [] \<and>
   id_values doc_end_only ''w:commentReference'' = [] \<and>
   check_comment_consistency pkg_end_only = [end_without_start ''1'']"
  by code_simp

section \<open>The pipeline\<close>

lemma main_doc_path:
  assumes "main pkg = (res, pkg')"
  shows "parse_xml pkg' doc_path =
           (case parse_xml (snd (deconflict_ids pkg)) doc_path of
              None \<Rightarrow> None
            | Some d1 \<Rightarrow>
                if filter needs_space (get_elements_by_tag d1 ''w:t'') \<noteq> []
                then Some (spaced d1) else Some d1)"
proof -
  obtain a pkg1 where 1: "deconflict_ids pkg = (a, pkg1)" by (cases "deconflict_ids pkg")
  obtain b pkg2 where 2: "dedup_relationships pkg1 = (b, pkg2)" by (cases "dedup_relationships pkg1")
  obtain c pkg3 where 3: "clean_orphaned_comments pkg2 = (c, pkg3)"
    by (cases "clean_orphaned_comments pkg2")
  obtain d pkg4 where 4: "fix_xml_space pkg3 = (d, pkg4)" by (cases "fix_xml_space pkg3")
  from assms 1 2 3 4 have p: "pkg' = pkg4" by (simp add: main_def)
  have "map_of (files pkg2) doc_path = map_of (files pkg1) doc_path"
    using dedup_relationships_other [OF 2, of doc_path] by simp
  moreover have "map_of (files pkg3) doc_path = map_of (files pkg2) doc_path"
    using clean_orphaned_comments_other [OF 3, of doc_path] by simp
  ultimately have "map_of (files pkg3) doc_path = map_of (files pkg1) doc_path" by simp
  then have e: "parse_xml pkg3 doc_path = parse_xml pkg1 doc_path" by (rule parse_xml_cong)
  show ?thesis
  proof (cases "parse_xml pkg1 doc_path")
    case None
    with e 4 p 1 show ?thesis by (simp add: fix_xml_space_eq)
  next
    case (Some d1)
    show ?thesis
    proof (cases "filter needs_space (get_elements_by_tag d1 ''w:t'') = []")
      case True
      with Some e 4 p 1 show ?thesis by (simp add: fix_xml_space_eq)
    next
      case False
      then obtain x where "x \<in> set (get_elements_by_tag d1 ''w:t'')"
        by (auto simp: filter_empty_conv)
      then have "x \<in> set (elements d1)" by (simp add: get_elements_by_tag_def)
      then have "list_ex is_Elem d1" by (rule elements_list_ex)
      with False Some e 4 p 1 show ?thesis
        by (auto simp: fix_xml_space_eq parse_xml_write_xml)
    qed
  qed
qed

lemma main_doc_clean:
  assumes "main pkg = (res, pkg')"
    and "parse_xml pkg' doc_path = Some doc'"
    and "\<forall>doc. parse_xml pkg doc_path = Some doc \<longrightarrow> wf_doc doc"
  shows "\<not> has_collision doc'"
    and "filter needs_space (get_elements_by_tag doc' ''w:t'') = []"
proof -
  obtain a pkg1 where 1: "deconflict_ids pkg = (a, pkg1)" by (cases "deconflict_ids pkg")
  note m = main_doc_path [OF assms(1), unfolded 1 snd_conv]
  have "\<not> has_collision doc' \<and> filter needs_space (get_elements_by_tag doc' ''w:t'') = []"
  proof (cases "parse_xml pkg doc_path")
    case None
    then have "pkg1 = pkg" using 1 deconflict_ids_clean [of pkg] by simp
    with None m assms(2) show ?thesis by simp
  next
    case (Some doc)
    with assms(3) have wf: "wf_doc doc" by simp
    let ?d1 = "if has_collision doc then relabelled doc else doc"
    have p1: "parse_xml pkg1 doc_path = Some ?d1" by (rule deconflict_ids_doc [OF Some wf 1])
    have n: "\<not> has_collision ?d1" by (simp add: relabelled_no_collision)
    show ?thesis
    proof (cases "filter needs_space (get_elements_by_tag ?d1 ''w:t'') = []")
      case True
      with m p1 assms(2) have "doc' = ?d1" by simp
      with n True show ?thesis by simp
    next
      case False
      with m p1 assms(2) have "doc' = spaced ?d1" by simp
      with n show ?thesis by (simp add: spaced_clean)
    qed
  qed
  then show "\<not> has_collision doc'"
    and "filter needs_space (get_elements_by_tag doc' ''w:t'') = []" by simp_all
qed

text \<open>
  Claim C1. After the repair pipeline no identifier value is shared across two annotation
  kinds in \<^verbatim>\<open>document.xml\<close>: the sets of the integer ids of the bookmark, comment and
  tracked-change nodes are pairwise disjoint. A set holds every id of its kind, so the
  pairing of \<^verbatim>\<open>bookmarkStart\<close> and \<^verbatim>\<open>bookmarkEnd\<close> under one id is not touched by the
  statement. Every element of the document is an object of its own.
\<close>

theorem main_no_shared_ids:
  assumes "main pkg = (res, pkg')"
    and "parse_xml pkg' doc_path = Some doc'"
    and "\<forall>doc. parse_xml pkg doc_path = Some doc \<longrightarrow> wf_doc doc"
  shows "id_set doc' BOOKMARK_TAGS \<inter> id_set doc' COMMENT_DOC_TAGS = {} \<and>
         id_set doc' BOOKMARK_TAGS \<inter> id_set doc' CHANGE_TAGS = {} \<and>
         id_set doc' COMMENT_DOC_TAGS \<inter> id_set doc' CHANGE_TAGS = {}"
proof -
  have "\<not> has_collision doc'" by (rule main_doc_clean(1) [OF assms])
  then show ?thesis by (simp add: has_collision_def)
qed

theorem main_no_shared_ids_witness:
  "fst (main pkg_collide) =
     \<lparr>id_deconfliction = \<lparr>comments_renumbered = 0, changes_renumbered = 1\<rparr>,
      relationship_dedup = \<lparr>content_types_removed = 0, rels_removed = 0\<rparr>,
      orphans_removed = 0, space_attrs_added = 1, total_changes = 2\<rparr> \<and>
   parse_xml (snd (main pkg_collide)) doc_path = Some doc_collide_after \<and>
   wf_doc doc_collide \<and>
   id_set doc_collide BOOKMARK_TAGS \<inter> id_set doc_collide CHANGE_TAGS = {5} \<and>
   id_set doc_collide_after BOOKMARK_TAGS = {5} \<and>
   id_set doc_collide_after CHANGE_TAGS = {6} \<and>
   id_set doc_collide_after BOOKMARK_TAGS \<inter> id_set doc_collide_after CHANGE_TAGS = {}"
proof -
  have a: "fst (main pkg_collide) =
     \<lparr>id_deconfliction = \<lparr>comments_renumbered = 0, changes_renumbered = 1\<rparr>,
      relationship_dedup = \<lparr>content_types_removed = 0, rels_removed = 0\<rparr>,
      orphans_removed = 0, space_attrs_added = 1, total_changes = 2\<rparr>" by code_simp
  have b: "parse_xml (snd (main pkg_collide)) doc_path = Some doc_collide_after" by code_simp
  have c: "wf_doc doc_collide" by code_simp
  have d: "parse_xml pkg_collide doc_path = Some doc_collide" by code_simp
  have e: "id_set doc_collide BOOKMARK_TAGS \<inter> id_set doc_collide CHANGE_TAGS = {5}" by code_simp
  have f: "id_set doc_collide_after BOOKMARK_TAGS = {5}" by code_simp
  have g: "id_set doc_collide_after CHANGE_TAGS = {6}" by code_simp
  have h: "\<forall>doc. parse_xml pkg_collide doc_path = Some doc \<longrightarrow> wf_doc doc"
    using c d by simp
  from main_no_shared_ids [OF surjective_pairing b h] a b c e f g show ?thesis by blast
qed

lemma id_set_relabelled_change:
  "id_set (relabelled doc) CHANGE_TAGS =
     (id_set doc CHANGE_TAGS - fst ` set (fst (change_id_remap doc))) \<union>
     snd ` set (fst (change_id_remap doc))"
proof -
  let ?m = "fst (change_id_remap doc)"
  have t: "target doc (tag e) (attrs e) = (case int_id e of None \<Rightarrow> None | Some old \<Rightarrow> map_of ?m old)"
    if "tag e \<in> set CHANGE_TAGS" for e
    using that tags_disjoint(3) by (auto simp: target_def int_id_attrs)
  have k: "fst ` set ?m \<subseteq> id_set doc CHANGE_TAGS"
    by (auto simp: change_id_remap_props(1))
  show ?thesis
  proof (intro set_eqI iffI)
    fix i assume "i \<in> id_set (relabelled doc) CHANGE_TAGS"
    then obtain e where e: "e \<in> set (elements doc)" "tag e \<in> set CHANGE_TAGS"
      "case target doc (tag e) (attrs e) of None \<Rightarrow> int_id e = Some i | Some new \<Rightarrow> i = new"
      by (auto simp: relabelled_def id_set_relabelled)
    show "i \<in> (id_set doc CHANGE_TAGS - fst ` set ?m) \<union> snd ` set ?m"
    proof (cases "target doc (tag e) (attrs e)")
      case None
      with e have i: "int_id e = Some i" by simp
      with None t [OF e(2)] have "map_of ?m i = None" by simp
      then have "i \<notin> fst ` set ?m" by (simp add: map_of_eq_None_iff)
      moreover from i e have "i \<in> id_set doc CHANGE_TAGS" by (auto simp: id_set_eq)
      ultimately show ?thesis by simp
    next
      case (Some new)
      with e have "i = new" by simp
      moreover from Some t [OF e(2)] obtain old where "map_of ?m old = Some new"
        by (auto split: option.splits)
      ultimately have "(old, i) \<in> set ?m" by (auto dest: map_of_SomeD)
      then show ?thesis by force
    qed
  next
    fix i assume "i \<in> (id_set doc CHANGE_TAGS - fst ` set ?m) \<union> snd ` set ?m"
    then show "i \<in> id_set (relabelled doc) CHANGE_TAGS"
    proof
      assume a: "i \<in> id_set doc CHANGE_TAGS - fst ` set ?m"
      then obtain e where e: "e \<in> set (elements doc)" "tag e \<in> set CHANGE_TAGS" "int_id e = Some i"
        by (auto simp: id_set_eq)
      from a have "map_of ?m i = None" by (simp add: map_of_eq_None_iff)
      with t [OF e(2)] e(3) have "target doc (tag e) (attrs e) = None" by simp
      with e show ?thesis unfolding relabelled_def id_set_relabelled by force
    next
      assume "i \<in> snd ` set ?m"
      then obtain old where o: "(old, i) \<in> set ?m" by auto
      then have "old \<in> id_set doc CHANGE_TAGS" using k by force
      then obtain e where e: "e \<in> set (elements doc)" "tag e \<in> set CHANGE_TAGS" "int_id e = Some old"
        by (auto simp: id_set_eq)
      from o have "map_of ?m old = Some i"
        using change_id_remap_props(2) [of doc] by simp
      with t [OF e(2)] e(3) have "target doc (tag e) (attrs e) = Some i" by simp
      with e show ?thesis unfolding relabelled_def id_set_relabelled by force
    qed
  qed
qed

lemma deconflict_ids_comments_part:
  assumes "parse_xml pkg doc_path = Some doc" "wf_doc doc" "has_collision doc"
    and "deconflict_ids pkg = (s, pkg')"
  shows "map_of (files pkg') comments_path =
           (case parse_xml pkg comments_path of
              None \<Rightarrow> map_of (files pkg) comments_path
            | Some cdoc \<Rightarrow>
                if fst (comment_id_remap doc) \<noteq> []
                then Some (to_part (mirrored doc cdoc))
                else map_of (files pkg) comments_path)"
  using assms(4)
  by (auto simp: deconflict_ids_collision [OF assms(1-3)] map_of_files_write_xml
           split: option.splits if_splits)

text \<open>
  Claim C3, as the code has it. In the deconfliction pass the collisions of the change-kind
  ids are computed against the bookmark-kind set and the comment-kind set as they were
  collected before any renumbering: exactly the change-kind ids that are in one of these two
  sets get a fresh id, which lies above the maximum and above every fresh comment id. The
  change-kind ids of the document afterwards are the ones that did not collide and the fresh
  ones. Only nodes of \<^verbatim>\<open>document.xml\<close> are rewritten for them: \<^verbatim>\<open>comments.xml\<close> mirrors the
  comment mapping alone, and no other part changes.
\<close>

theorem deconflict_ids_change_remap:
  assumes "parse_xml pkg doc_path = Some doc" "wf_doc doc" "has_collision doc"
    and "deconflict_ids pkg = (s, pkg')"
  shows
    "fst ` set (fst (change_id_remap doc)) =
       {i \<in> id_set doc CHANGE_TAGS.
          i \<in> id_set doc BOOKMARK_TAGS \<or> i \<in> id_set doc COMMENT_DOC_TAGS} \<and>
     (\<forall>new \<in> snd ` set (fst (change_id_remap doc)).
        max_id doc < new \<and> (\<forall>c \<in> snd ` set (fst (comment_id_remap doc)). c < new)) \<and>
     (\<exists>doc'. parse_xml pkg' doc_path = Some doc' \<and>
        id_set doc' CHANGE_TAGS =
          (id_set doc CHANGE_TAGS - fst ` set (fst (change_id_remap doc))) \<union>
          snd ` set (fst (change_id_remap doc))) \<and>
     map_of (files pkg') comments_path =
       (case parse_xml pkg comments_path of
          None \<Rightarrow> map_of (files pkg) comments_path
        | Some cdoc \<Rightarrow>
            if fst (comment_id_remap doc) \<noteq> []
            then Some (to_part (renumber_comments (get_elements_by_tag cdoc ''w:comment'')
                                 (fst (comment_id_remap doc)) cdoc))
            else map_of (files pkg) comments_path) \<and>
     (\<forall>q. q \<noteq> doc_path \<and> q \<noteq> comments_path \<longrightarrow> map_of (files pkg') q = map_of (files pkg) q)"
proof -
  have a: "fst ` set (fst (change_id_remap doc)) =
       {i \<in> id_set doc CHANGE_TAGS.
          i \<in> id_set doc BOOKMARK_TAGS \<or> i \<in> id_set doc COMMENT_DOC_TAGS}"
    by (rule change_id_remap_props(1))
  have b: "max_id doc < new \<and> (\<forall>c \<in> snd ` set (fst (comment_id_remap doc)). c < new)"
    if "new \<in> snd ` set (fst (change_id_remap doc))" for new
  proof -
    from that obtain old where "(old, new) \<in> set (fst (change_id_remap doc))" by auto
    from change_id_remap_props(3) [OF this] have n: "snd (comment_id_remap doc) \<le> new" .
    have "c < new" if "c \<in> snd ` set (fst (comment_id_remap doc))" for c
    proof -
      from that obtain o' where "(o', c) \<in> set (fst (comment_id_remap doc))" by auto
      from comment_id_remap_props(3) [OF this] n show ?thesis by simp
    qed
    with n comment_id_remap_next [of doc] show ?thesis by auto
  qed
  have c: "\<exists>doc'. parse_xml pkg' doc_path = Some doc' \<and>
        id_set doc' CHANGE_TAGS =
          (id_set doc CHANGE_TAGS - fst ` set (fst (change_id_remap doc))) \<union>
          snd ` set (fst (change_id_remap doc))"
    using deconflict_ids_doc [OF assms(1,2,4)] assms(3) id_set_relabelled_change [of doc] by simp
  note d = deconflict_ids_comments_part [OF assms, unfolded mirrored_def]
  have e: "map_of (files pkg') q = map_of (files pkg) q" if "q \<noteq> doc_path" "q \<noteq> comments_path" for q
    using deconflict_ids_other [OF assms(4) that] .
  from a b c d e show ?thesis by blast
qed

theorem deconflict_ids_change_remap_witness:
  "parse_xml pkg_comment_change doc_path = Some doc_comment_change \<and>
   wf_doc doc_comment_change \<and> has_collision doc_comment_change \<and>
   deconflict_ids pkg_comment_change =
     (\<lparr>comments_renumbered = 2, changes_renumbered = 1\<rparr>, pkg_comment_change_after) \<and>
   fst ` set (fst (change_id_remap doc_comment_change)) = {5} \<and>
   snd ` set (fst (change_id_remap doc_comment_change)) = {7}"
proof -
  have a: "parse_xml pkg_comment_change doc_path = Some doc_comment_change" by code_simp
  have b: "wf_doc doc_comment_change" by code_simp
  have c: "has_collision doc_comment_change" by code_simp
  have d: "deconflict_ids pkg_comment_change =
     (\<lparr>comments_renumbered = 2, changes_renumbered = 1\<rparr>, pkg_comment_change_after)" by code_simp
  have e: "id_set doc_comment_change CHANGE_TAGS = {5}" by code_simp
  have f: "id_set doc_comment_change COMMENT_DOC_TAGS = {5}" by code_simp
  have g: "snd ` set (fst (change_id_remap doc_comment_change)) = {7}" by code_simp
  from deconflict_ids_change_remap [OF a b c d] e f
  have "fst ` set (fst (change_id_remap doc_comment_change)) = {5}" by auto
  with a b c d g show ?thesis by blast
qed

text \<open>
  The claim as the spec words it fails: once the comment anchors have moved from 5 to 6, the
  change id 5 collides with nothing (there is no bookmark, and the comment ids are now
  \<open>{6}\<close>), and the tracked insertion is renumbered to 7 all the same.
\<close>

theorem deconflict_ids_renumbers_resolved_change:
  "id_set doc_comment_change BOOKMARK_TAGS = {} \<and>
   id_set (fst (renumber_comment_nodes doc_comment_change)) COMMENT_DOC_TAGS = {6} \<and>
   id_set (fst (renumber_comment_nodes doc_comment_change)) CHANGE_TAGS = {5} \<and>
   fst (change_id_remap doc_comment_change) = [(5, 7)] \<and>
   fst (deconflict_ids pkg_comment_change) = \<lparr>comments_renumbered = 2, changes_renumbered = 1\<rparr>"
  by code_simp

section \<open>Elements without an integer id\<close>

lemma length_filter_disj:
  "(\<And>x. x \<in> set xs \<Longrightarrow> \<not> (P x \<and> Q x)) \<Longrightarrow>
     length (filter (\<lambda>x. P x \<or> Q x) xs) = length (filter P xs) + length (filter Q xs)"
  by (induction xs) auto

lemma length_filter_entries:
  "distinct tags \<Longrightarrow>
     length (filter (\<lambda>x. P (snd x)) (entries doc tags)) =
       length (filter (\<lambda>e. tag e \<in> set tags \<and> P e) (elements doc))"
proof (induction tags)
  case Nil
  show ?case by (simp add: entries_def)
next
  case (Cons tg tags)
  have e: "entries doc (tg # tags) = map (Pair tg) (get_elements_by_tag doc tg) @ entries doc tags"
    by (simp add: entries_def)
  have "length (filter (\<lambda>e. (tag e = tg \<and> P e) \<or> (tag e \<in> set tags \<and> P e)) (elements doc))
          = length (filter (\<lambda>e. tag e = tg \<and> P e) (elements doc)) +
            length (filter (\<lambda>e. tag e \<in> set tags \<and> P e) (elements doc))"
    using Cons.prems by (intro length_filter_disj) auto
  moreover have "(\<lambda>e. tag e \<in> set (tg # tags) \<and> P e)
                   = (\<lambda>e. (tag e = tg \<and> P e) \<or> (tag e \<in> set tags \<and> P e))"
    by auto
  moreover have "length (filter (\<lambda>x. P (snd x)) (map (Pair tg) (get_elements_by_tag doc tg)))
                   = length (filter (\<lambda>e. tag e = tg \<and> P e) (elements doc))"
    by (simp add: filter_map comp_def get_elements_by_tag_def conj_commute)
  ultimately show ?case using Cons by (simp add: e)
qed

lemma sum_indexed:
  "distinct ks \<Longrightarrow>
     sum_list (map (\<lambda>k. length (with_id k xs)) ks) =
       length (filter (\<lambda>x. \<exists>k \<in> set ks. int_id (snd x) = Some k) xs)"
proof (induction ks)
  case (Cons k ks)
  have "length (filter (\<lambda>x. int_id (snd x) = Some k \<or> (\<exists>k' \<in> set ks. int_id (snd x) = Some k')) xs)
          = length (filter (\<lambda>x. int_id (snd x) = Some k) xs) +
            length (filter (\<lambda>x. \<exists>k' \<in> set ks. int_id (snd x) = Some k') xs)"
    using Cons.prems by (intro length_filter_disj) auto
  with Cons show ?case by (simp add: with_id_def)
qed simp

lemma indexed_collect: "indexed (collect_w_ids doc tags) old = length (with_id old (entries doc tags))"
  by (simp add: indexed_def map_of_collect_w_ids)

lemma renumber_count:
  assumes "distinct (map fst remap)" "distinct tags"
  shows "snd (renumber remap (collect_w_ids doc tags) (d, 0)) =
           length (filter (\<lambda>e. tag e \<in> set tags \<and> (\<exists>k \<in> fst ` set remap. int_id e = Some k))
                     (elements doc))"
proof -
  have "snd (renumber remap (collect_w_ids doc tags) (d, 0)) =
          sum_list (map (\<lambda>k. length (with_id k (entries doc tags))) (map fst remap))"
    by (simp add: renumber_eq indexed_collect comp_def)
  also have "\<dots> = length (filter (\<lambda>x. \<exists>k \<in> set (map fst remap). int_id (snd x) = Some k)
                          (entries doc tags))"
    by (rule sum_indexed [OF assms(1)])
  also have "\<dots> = length (filter (\<lambda>e. tag e \<in> set tags \<and> (\<exists>k \<in> set (map fst remap). int_id e = Some k))
                          (elements doc))"
    by (rule length_filter_entries [OF assms(2)])
  finally show ?thesis by simp
qed

lemma distinct_tags [simp]:
  "distinct BOOKMARK_TAGS" "distinct COMMENT_DOC_TAGS" "distinct CHANGE_TAGS"
  by (simp_all add: BOOKMARK_TAGS_def COMMENT_DOC_TAGS_def CHANGE_TAGS_def)

lemma deconflict_ids_counts:
  assumes "parse_xml pkg doc_path = Some doc" "wf_doc doc" "deconflict_ids pkg = (s, pkg')"
  shows "comments_renumbered s =
           (if has_collision doc
            then length (filter (\<lambda>e. tag e \<in> set COMMENT_DOC_TAGS \<and>
                                  (\<exists>k \<in> fst ` set (fst (comment_id_remap doc)). int_id e = Some k))
                           (elements doc))
            else 0)"
    and "changes_renumbered s =
           (if has_collision doc
            then length (filter (\<lambda>e. tag e \<in> set CHANGE_TAGS \<and>
                                  (\<exists>k \<in> fst ` set (fst (change_id_remap doc)). int_id e = Some k))
                           (elements doc))
            else 0)"
proof -
  show "comments_renumbered s =
           (if has_collision doc
            then length (filter (\<lambda>e. tag e \<in> set COMMENT_DOC_TAGS \<and>
                                  (\<exists>k \<in> fst ` set (fst (comment_id_remap doc)). int_id e = Some k))
                           (elements doc))
            else 0)"
  proof (cases "has_collision doc")
    case True
    with assms(3) have "comments_renumbered s = snd (renumber_comment_nodes doc)"
      by (auto simp: deconflict_ids_collision [OF assms(1,2) True])
    with True show ?thesis
      unfolding renumber_comment_nodes_def
      by (simp add: renumber_count [OF comment_id_remap_props(2)])
  next
    case False
    with assms(1,3) deconflict_ids_clean [of pkg] show ?thesis by (auto simp: zero_summary_def)
  qed
  show "changes_renumbered s =
           (if has_collision doc
            then length (filter (\<lambda>e. tag e \<in> set CHANGE_TAGS \<and>
                                  (\<exists>k \<in> fst ` set (fst (change_id_remap doc)). int_id e = Some k))
                           (elements doc))
            else 0)"
  proof (cases "has_collision doc")
    case True
    with assms(3) have "changes_renumbered s =
        snd (renumber_change_nodes doc (fst (renumber_comment_nodes doc)))"
      by (auto simp: deconflict_ids_collision [OF assms(1,2) True])
    with True show ?thesis
      unfolding renumber_change_nodes_def
      by (simp add: renumber_count [OF change_id_remap_props(2)])
  next
    case False
    with assms(1,3) deconflict_ids_clean [of pkg] show ?thesis by (auto simp: zero_summary_def)
  qed
qed

lemma deconflict_ids_keeps_non_integer:
  assumes "parse_xml pkg doc_path = Some doc" "wf_doc doc" "deconflict_ids pkg = (s, pkg')"
    and "e \<in> set (elements doc)" "int_id e = None"
  shows "\<exists>doc'. parse_xml pkg' doc_path = Some doc' \<and>
           (\<exists>e' \<in> set (elements doc'). ref e' = ref e \<and> tag e' = tag e \<and> attrs e' = attrs e)"
proof (cases "has_collision doc")
  case False
  with deconflict_ids_doc [OF assms(1-3)] assms(4) show ?thesis by auto
next
  case True
  let ?f = "\<lambda>(r::nat) t a. put_id (target doc t a) a"
  have "target doc (tag e) (attrs e) = None"
    using assms(5) by (simp add: target_def int_id_attrs)
  then have a: "ref (map_el ?f e) = ref e \<and> tag (map_el ?f e) = tag e \<and> attrs (map_el ?f e) = attrs e"
    by (simp add: put_id_def)
  have b: "map_el ?f e \<in> set (elements (relabelled doc))"
    using assms(4) by (simp add: relabelled_def elements_map_attrs)
  have c: "parse_xml pkg' doc_path = Some (relabelled doc)"
    using deconflict_ids_doc [OF assms(1-3)] True by simp
  from a b c show ?thesis by blast
qed

subsection \<open>The validator's index\<close>

definition tags_with :: "string \<Rightarrow> (string \<times> node) list \<Rightarrow> string list" where
  "tags_with v xs = map fst (filter (\<lambda>x. getAttribute (snd x) ''w:id'' = v) xs)"

lemma seen_ids_entries:
  "seen_ids doc = fold (\<lambda>x. seen_el (fst x) (snd x)) (entries doc ANNOTATION_TAGS) []"
proof -
  have "fold (\<lambda>tg m. fold (seen_el tg) (get_elements_by_tag doc tg) m) tags m0 =
          fold (\<lambda>x. seen_el (fst x) (snd x)) (entries doc tags) m0" for m0 tags
    by (induction tags arbitrary: m0) (simp_all add: entries_def fold_map comp_def)
  then show ?thesis by (simp add: seen_ids_def)
qed

lemma distinct_setdefault_append:
  "distinct (map fst m) \<Longrightarrow> distinct (map fst (setdefault_append k v m))"
proof -
  have "map fst (setdefault_append k v m) =
          (if k \<in> fst ` set m then map fst m else map fst m @ [k])"
    by (induction m) force+
  then show "distinct (map fst m) \<Longrightarrow> distinct (map fst (setdefault_append k v m))"
    by (auto split: if_splits)
qed

lemma fold_seen_el:
  "v \<noteq> [] \<Longrightarrow>
   map_of (fold (\<lambda>x. seen_el (fst x) (snd x)) xs m) v =
     (if tags_with v xs = [] then map_of m v
      else Some ((case map_of m v of None \<Rightarrow> [] | Some ts \<Rightarrow> ts) @ tags_with v xs))"
proof (induction xs arbitrary: m)
  case Nil
  show ?case by (simp add: tags_with_def)
next
  case (Cons x xs)
  show ?case
  proof (cases "getAttribute (snd x) ''w:id'' = []")
    case True
    with Cons.prems show ?thesis using Cons.IH [OF Cons.prems, of m]
      by (auto simp: seen_el_def tags_with_def)
  next
    case False
    then show ?thesis
      using Cons.IH [OF Cons.prems, of "setdefault_append (getAttribute (snd x) ''w:id'') (fst x) m"]
      by (auto simp: seen_el_def tags_with_def map_of_setdefault_append split: option.splits)
  qed
qed

lemma fold_seen_el_keys:
  "distinct (map fst m) \<Longrightarrow> [] \<notin> fst ` set m \<Longrightarrow>
     distinct (map fst (fold (\<lambda>x. seen_el (fst x) (snd x)) xs m)) \<and>
     [] \<notin> fst ` set (fold (\<lambda>x. seen_el (fst x) (snd x)) xs m)"
proof (induction xs arbitrary: m)
  case (Cons x xs)
  show ?case
  proof (cases "getAttribute (snd x) ''w:id'' = []")
    case True
    then show ?thesis using Cons by (simp add: seen_el_def)
  next
    case False
    have "distinct (map fst (setdefault_append (getAttribute (snd x) ''w:id'') (fst x) m))"
      using Cons.prems(1) by (rule distinct_setdefault_append)
    moreover have "[] \<notin> fst ` set (setdefault_append (getAttribute (snd x) ''w:id'') (fst x) m)"
      using Cons.prems(2) False by (simp add: keys_setdefault_append)
    ultimately show ?thesis using Cons.IH False by (simp add: seen_el_def)
  qed
qed simp

lemma in_seen_ids:
  "(v, ts) \<in> set (seen_ids doc) \<longleftrightarrow>
     v \<noteq> [] \<and> ts \<noteq> [] \<and> ts = tags_with v (entries doc ANNOTATION_TAGS)"
proof -
  let ?xs = "entries doc ANNOTATION_TAGS"
  from fold_seen_el_keys [of "[]" ?xs]
  have d: "distinct (map fst (seen_ids doc))" and n: "[] \<notin> fst ` set (seen_ids doc)"
    by (simp_all add: seen_ids_entries)
  have m: "map_of (seen_ids doc) v = (if tags_with v ?xs = [] then None else Some (tags_with v ?xs))"
    if "v \<noteq> []"
    using fold_seen_el [OF that, of ?xs "[]"] by (simp add: seen_ids_entries)
  show ?thesis
  proof (cases "v = []")
    case True
    with n show ?thesis by force
  next
    case False
    have "(v, ts) \<in> set (seen_ids doc) \<longleftrightarrow> map_of (seen_ids doc) v = Some ts"
      using d by simp
    with m [OF False] False show ?thesis by auto
  qed
qed

lemma remdups_two: "1 < length (remdups xs) \<longleftrightarrow> (\<exists>a \<in> set xs. \<exists>b \<in> set xs. a \<noteq> b)"
proof -
  have "length (remdups xs) = card (set xs)" by (simp add: length_remdups_card_conv)
  moreover have "1 < card (set xs) \<longleftrightarrow> (\<exists>a \<in> set xs. \<exists>b \<in> set xs. a \<noteq> b)"
  proof
    assume "1 < card (set xs)"
    then show "\<exists>a \<in> set xs. \<exists>b \<in> set xs. a \<noteq> b"
      by (metis card_le_Suc0_iff_eq List.finite_set not_less One_nat_def)
  next
    assume "\<exists>a \<in> set xs. \<exists>b \<in> set xs. a \<noteq> b"
    then obtain a b where ab: "a \<in> set xs" "b \<in> set xs" "a \<noteq> b" by blast
    then have "card {a, b} \<le> card (set xs)" by (intro card_mono) auto
    with ab(3) show "1 < card (set xs)" by simp
  qed
  ultimately show ?thesis by simp
qed

lemma check_unique_ids_iff:
  assumes "parse_xml pkg doc_path = Some doc"
  shows "(\<exists>ts msg. Unique_ids v ts msg \<in> set (check_unique_ids pkg)) \<longleftrightarrow>
           v \<noteq> [] \<and>
           (\<exists>e1 \<in> set (elements doc). \<exists>e2 \<in> set (elements doc).
              tag e1 \<in> set ANNOTATION_TAGS \<and> tag e2 \<in> set ANNOTATION_TAGS \<and>
              getAttribute e1 ''w:id'' = v \<and> getAttribute e2 ''w:id'' = v \<and>
              unique_type (tag e1) \<noteq> unique_type (tag e2))"
proof -
  let ?xs = "entries doc ANNOTATION_TAGS"
  let ?T = "tags_with v ?xs"
  have set_T: "set ?T = {tag e | e. e \<in> set (elements doc) \<and> tag e \<in> set ANNOTATION_TAGS \<and>
                           getAttribute e ''w:id'' = v}"
    by (force simp: tags_with_def set_entries)
  have "(\<exists>ts msg. Unique_ids v ts msg \<in> set (check_unique_ids pkg)) \<longleftrightarrow>
          (\<exists>ts. (v, ts) \<in> set (seen_ids doc) \<and> 1 < length ts \<and>
                1 < length (remdups (map unique_type ts)))"
    using assms by (force simp: check_unique_ids_def unique_ids_issue_def)
  also have "\<dots> \<longleftrightarrow> v \<noteq> [] \<and> 1 < length ?T \<and> 1 < length (remdups (map unique_type ?T))"
    by (auto simp: in_seen_ids)
  also have "\<dots> \<longleftrightarrow> v \<noteq> [] \<and> 1 < length (remdups (map unique_type ?T))"
  proof -
    have "1 < length ?T" if "1 < length (remdups (map unique_type ?T))"
    proof -
      have "length (remdups (map unique_type ?T)) \<le> length (map unique_type ?T)"
        by (rule length_remdups_leq)
      with that show ?thesis by simp
    qed
    then show ?thesis by blast
  qed
  also have "\<dots> \<longleftrightarrow> v \<noteq> [] \<and> (\<exists>a \<in> set ?T. \<exists>b \<in> set ?T. unique_type a \<noteq> unique_type b)"
    unfolding remdups_two by auto
  also have "\<dots> \<longleftrightarrow> v \<noteq> [] \<and>
           (\<exists>e1 \<in> set (elements doc). \<exists>e2 \<in> set (elements doc).
              tag e1 \<in> set ANNOTATION_TAGS \<and> tag e2 \<in> set ANNOTATION_TAGS \<and>
              getAttribute e1 ''w:id'' = v \<and> getAttribute e2 ''w:id'' = v \<and>
              unique_type (tag e1) \<noteq> unique_type (tag e2))"
    unfolding set_T by blast
  finally show ?thesis .
qed

text \<open>
  Claim C9, as the code has it. An element whose \<^verbatim>\<open>w:id\<close> is missing or not an integer is
  not in the identifier index: every indexed element has the integer id it is indexed
  under. Deconfliction leaves such an element as it is (same object, tag and attributes),
  and its counters count only elements whose integer id is remapped; the pass always
  returns a summary. The validator's unique-id check skips an element only when its id
  attribute is missing or empty, and it compares the attribute strings: it reports a value
  exactly when two annotation elements of different kinds carry that same non-empty string,
  integer or not.
\<close>

theorem non_integer_ids_ignored:
  assumes "parse_xml pkg doc_path = Some doc" "wf_doc doc" "deconflict_ids pkg = (s, pkg')"
  shows
    "(\<forall>tags i els x. map_of (collect_w_ids doc tags) i = Some els \<and> x \<in> set els \<longrightarrow>
        py_int (getAttribute (snd x) ''w:id'') = Some i) \<and>
     (\<forall>e \<in> set (elements doc). py_int (getAttribute e ''w:id'') = None \<longrightarrow>
        (\<exists>doc'. parse_xml pkg' doc_path = Some doc' \<and>
           (\<exists>e' \<in> set (elements doc'). ref e' = ref e \<and> tag e' = tag e \<and> attrs e' = attrs e))) \<and>
     comments_renumbered s =
       (if has_collision doc
        then length (filter (\<lambda>e. tag e \<in> set COMMENT_DOC_TAGS \<and>
                (\<exists>k \<in> fst ` set (fst (comment_id_remap doc)).
                   py_int (getAttribute e ''w:id'') = Some k)) (elements doc))
        else 0) \<and>
     changes_renumbered s =
       (if has_collision doc
        then length (filter (\<lambda>e. tag e \<in> set CHANGE_TAGS \<and>
                (\<exists>k \<in> fst ` set (fst (change_id_remap doc)).
                   py_int (getAttribute e ''w:id'') = Some k)) (elements doc))
        else 0) \<and>
     (\<forall>v. (\<exists>ts msg. Unique_ids v ts msg \<in> set (check_unique_ids pkg)) \<longleftrightarrow>
           v \<noteq> [] \<and>
           (\<exists>e1 \<in> set (elements doc). \<exists>e2 \<in> set (elements doc).
              tag e1 \<in> set ANNOTATION_TAGS \<and> tag e2 \<in> set ANNOTATION_TAGS \<and>
              getAttribute e1 ''w:id'' = v \<and> getAttribute e2 ''w:id'' = v \<and>
              unique_type (tag e1) \<noteq> unique_type (tag e2)))"
proof -
  have a: "py_int (getAttribute (snd x) ''w:id'') = Some i"
    if "map_of (collect_w_ids doc tags) i = Some els" "x \<in> set els" for tags i els x
    using that by (auto simp: map_of_collect_w_ids with_id_def int_id_def split: if_splits)
  have b: "\<exists>doc'. parse_xml pkg' doc_path = Some doc' \<and>
           (\<exists>e' \<in> set (elements doc'). ref e' = ref e \<and> tag e' = tag e \<and> attrs e' = attrs e)"
    if "e \<in> set (elements doc)" "py_int (getAttribute e ''w:id'') = None" for e
    using deconflict_ids_keeps_non_integer [OF assms that(1)] that(2) by (simp add: int_id_def)
  note c = deconflict_ids_counts [OF assms, unfolded int_id_def]
  note d = check_unique_ids_iff [OF assms(1)]
  from a b c d show ?thesis by blast
qed

theorem non_integer_ids_ignored_witness:
  "parse_xml pkg_abc doc_path = Some doc_abc \<and> wf_doc doc_abc \<and>
   deconflict_ids pkg_abc = (\<lparr>comments_renumbered = 0, changes_renumbered = 0\<rparr>, pkg_abc) \<and>
   py_int ''abc'' = None \<and>
   (\<exists>ts msg. Unique_ids ''abc'' ts msg \<in> set (check_unique_ids pkg_abc))"
proof -
  have a: "parse_xml pkg_abc doc_path = Some doc_abc" by code_simp
  have b: "wf_doc doc_abc" by code_simp
  have c: "deconflict_ids pkg_abc = (\<lparr>comments_renumbered = 0, changes_renumbered = 0\<rparr>, pkg_abc)"
    by code_simp
  have d: "py_int ''abc'' = None" by code_simp
  have e: "\<exists>e1 \<in> set (elements doc_abc). \<exists>e2 \<in> set (elements doc_abc).
              tag e1 \<in> set ANNOTATION_TAGS \<and> tag e2 \<in> set ANNOTATION_TAGS \<and>
              getAttribute e1 ''w:id'' = ''abc'' \<and> getAttribute e2 ''w:id'' = ''abc'' \<and>
              unique_type (tag e1) \<noteq> unique_type (tag e2)"
    by code_simp
  from non_integer_ids_ignored [OF a b c] e
  have "\<exists>ts msg. Unique_ids ''abc'' ts msg \<in> set (check_unique_ids pkg_abc)" by blast
  with a b c d show ?thesis by blast
qed

text \<open>
  The claim as the spec words it fails in its last part: the two elements with the
  non-integer id \<open>abc\<close> are outside the repair index, and the validator reports them.
\<close>

theorem check_unique_ids_reports_non_integer:
  "py_int ''abc'' = None \<and>
   collect_w_ids doc_abc ANNOTATION_TAGS = [] \<and>
   deconflict_ids pkg_abc = (\<lparr>comments_renumbered = 0, changes_renumbered = 0\<rparr>, pkg_abc) \<and>
   check_unique_ids pkg_abc = [unique_ids_issue ''abc'' [''w:bookmarkStart'', ''w:ins'']]"
  by code_simp

section \<open>Write-if-dirty\<close>

lemma write_if_dirty_intro:
  assumes "written pkg' = written pkg @ ws" "distinct ws"
    and "\<And>p. p \<in> set ws \<Longrightarrow> map_of (files pkg') p \<noteq> map_of (files pkg) p"
  shows "write_if_dirty pkg pkg'"
  using assms by (simp add: write_if_dirty_def phase_writes_def)

lemma phase_writes_append: "written pkg' = written pkg @ ws \<Longrightarrow> phase_writes pkg pkg' = ws"
  by (simp add: phase_writes_def)

lemma dedup_relationships_writes:
  assumes "distinct (map fst (files pkg))"
  shows "write_if_dirty pkg (snd (dedup_relationships pkg))"
proof -
  obtain ct pkg1 where c: "dedup_content_types pkg = (ct, pkg1)"
    by (cases "dedup_content_types pkg")
  obtain rels pkg2 where f: "fold dedup_rels_file (rglob_rels pkg1) (0, pkg1) = (rels, pkg2)"
    by (cases "fold dedup_rels_file (rglob_rels pkg1) (0, pkg1)")
  from c f have p': "snd (dedup_relationships pkg) = pkg2" by (simp add: dedup_relationships_def)
  have keys1: "map fst (files pkg1) = map fst (files pkg)"
    using c by (auto simp: dedup_content_types_eq keys_write_xml parse_xml_Some_exists
                     split: option.splits if_splits)
  have other1: "map_of (files pkg1) q = map_of (files pkg) q" if "q \<noteq> ct_path" for q
    using c that by (auto simp: dedup_content_types_eq map_of_files_write_xml
                          split: option.splits if_splits)
  have rg: "rglob_rels pkg1 = rglob_rels pkg" by (simp add: rglob_rels_def keys1)
  have dist: "distinct (rglob_rels pkg1)" using assms rg by (simp add: distinct_rglob_rels)
  note fold = fold_dedup_rels_file [OF dist f]
  let ?w1 = "if ct > 0 then [ct_path] else []"
  let ?w2 = "filter (\<lambda>p. rels_count (map_of (files pkg1) p) > 0) (rglob_rels pkg1)"
  have w1: "written pkg1 = written pkg @ ?w1"
    using c by (auto simp: dedup_content_types_eq split: option.splits if_splits)
  have w: "written pkg2 = written pkg @ (?w1 @ ?w2)" using fold w1 by simp
  have nct: "ct_path \<notin> set (rglob_rels pkg1)" by (simp add: rglob_rels_iff)
  have d: "distinct (?w1 @ ?w2)" using dist nct by auto
  have ch: "map_of (files pkg2) p \<noteq> map_of (files pkg) p" if "p \<in> set (?w1 @ ?w2)" for p
  proof (cases "p = ct_path")
    case True
    with that nct have ct: "ct > 0" by (auto split: if_splits)
    from fold nct True have "map_of (files pkg2) p = map_of (files pkg1) ct_path" by simp
    moreover from c ct obtain doc where doc: "parse_xml pkg ct_path = Some doc"
      "snd (ct_result doc) > 0" "pkg1 = write_xml (fst (ct_result doc)) ct_path pkg"
      by (auto simp: dedup_content_types_eq split: option.splits if_splits)
    moreover have "fst (ct_result doc) \<noteq> doc"
      by (rule ct_result_props(6) [OF surjective_pairing doc(2)])
    ultimately show ?thesis
      using True by (simp add: map_of_files_write_xml parse_xml_Some_map_of to_part_neq)
  next
    case False
    with that have p: "p \<in> set (rglob_rels pkg1)" "rels_count (map_of (files pkg1) p) > 0"
      by (auto split: if_splits)
    from other1 [OF False] have m: "map_of (files pkg1) p = map_of (files pkg) p" .
    from p(2) m obtain doc where doc: "map_of (files pkg) p = Some (Xml doc)" "snd (rels_result doc) > 0"
      by (auto simp: rels_count_def split: option.splits part.splits)
    have "fst (rels_result doc) \<noteq> doc"
      by (rule rels_result_props(4) [OF surjective_pairing doc(2)])
    with fold p(1) m doc show ?thesis by (simp add: rels_new_def to_part_neq)
  qed
  show ?thesis unfolding p' using w d ch by (rule write_if_dirty_intro)
qed

lemma clean_orphaned_comments_writes:
  "write_if_dirty pkg (snd (clean_orphaned_comments pkg))"
proof (cases "parse_xml pkg comments_path")
  case None
  then show ?thesis
    by (simp add: clean_orphaned_comments_no_comments write_if_dirty_def phase_writes_def)
next
  case (Some cdoc)
  obtain n pkg' where r: "clean_orphaned_comments pkg = (n, pkg')"
    by (cases "clean_orphaned_comments pkg")
  note eq = clean_orphaned_comments_eq [OF Some r]
  let ?V = "valid_para_ids cdoc"
  let ?D = "ext_durable ?V (map_of (files pkg) ext_path)"
  let ?ws = "(if orphan_count (ext_orphan ?V) ''w15:commentEx'' (map_of (files pkg) ext_path) > 0
            then [ext_path] else []) @
           (if orphan_count (ids_orphan ?V) ''w16cid:commentId'' (map_of (files pkg) ids_path) > 0
            then [ids_path] else []) @
           (if orphan_count (extensible_orphan ?D) ''w16cex:commentExtensible''
                 (map_of (files pkg) extensible_path) > 0
            then [extensible_path] else [])"
  have w: "written pkg' = written pkg @ ?ws" by (rule eq(3))
  have d: "distinct ?ws" by simp
  have dirty: "cleaned P tg po \<noteq> po" if "orphan_count P tg po > 0" for P tg po
  proof -
    from that obtain doc where doc: "po = Some (Xml doc)" "filter P (get_elements_by_tag doc tg) \<noteq> []"
      by (auto simp: orphan_count_def split: option.splits part.splits)
    from remove_where_changed [OF doc(2)] doc show ?thesis
      by (simp add: cleaned_def to_part_neq)
  qed
  have ch: "map_of (files pkg') p \<noteq> map_of (files pkg) p" if "p \<in> set ?ws" for p
    using that eq(1) [of p] dirty by (auto split: if_splits)
  show ?thesis unfolding r snd_conv using w d ch by (rule write_if_dirty_intro)
qed

lemma fix_xml_space_writes: "write_if_dirty pkg (snd (fix_xml_space pkg))"
proof (cases "parse_xml pkg doc_path")
  case None
  then show ?thesis by (simp add: fix_xml_space_eq write_if_dirty_def phase_writes_def)
next
  case (Some doc)
  show ?thesis
  proof (cases "filter needs_space (get_elements_by_tag doc ''w:t'') = []")
    case True
    with Some show ?thesis by (simp add: fix_xml_space_eq write_if_dirty_def phase_writes_def)
  next
    case False
    from Some False have e: "snd (fix_xml_space pkg) = write_xml (spaced doc) doc_path pkg"
      by (simp add: fix_xml_space_eq)
    from Some have m: "map_of (files pkg) doc_path = Some (Xml doc)"
      by (simp add: parse_xml_Some_map_of)
    from spaced_changed [OF False] m show ?thesis
      unfolding e
      by (simp add: write_if_dirty_def phase_writes_def map_of_files_write_xml to_part_neq)
  qed
qed

lemma relabelled_changed: "has_collision doc \<Longrightarrow> relabelled doc \<noteq> doc"
  using relabelled_no_collision [of doc] by auto

lemma deconflict_ids_writes:
  assumes "\<forall>doc. parse_xml pkg doc_path = Some doc \<longrightarrow> wf_doc doc"
  shows "take (length (written pkg)) (written (snd (deconflict_ids pkg))) = written pkg"
    and "distinct (phase_writes pkg (snd (deconflict_ids pkg)))"
    and "set (phase_writes pkg (snd (deconflict_ids pkg))) \<subseteq> {doc_path, comments_path}"
    and "doc_path \<in> set (phase_writes pkg (snd (deconflict_ids pkg))) \<longrightarrow>
           map_of (files (snd (deconflict_ids pkg))) doc_path \<noteq> map_of (files pkg) doc_path"
    and "comments_path \<in> set (phase_writes pkg (snd (deconflict_ids pkg))) \<longleftrightarrow>
           (\<exists>doc cdoc. parse_xml pkg doc_path = Some doc \<and> has_collision doc \<and>
              parse_xml pkg comments_path = Some cdoc \<and> fst (comment_id_remap doc) \<noteq> [])"
proof -
  let ?pkg' = "snd (deconflict_ids pkg)"
  have "take (length (written pkg)) (written ?pkg') = written pkg \<and>
        distinct (phase_writes pkg ?pkg') \<and>
        set (phase_writes pkg ?pkg') \<subseteq> {doc_path, comments_path} \<and>
        (doc_path \<in> set (phase_writes pkg ?pkg') \<longrightarrow>
           map_of (files ?pkg') doc_path \<noteq> map_of (files pkg) doc_path) \<and>
        (comments_path \<in> set (phase_writes pkg ?pkg') \<longleftrightarrow>
           (\<exists>doc cdoc. parse_xml pkg doc_path = Some doc \<and> has_collision doc \<and>
              parse_xml pkg comments_path = Some cdoc \<and> fst (comment_id_remap doc) \<noteq> []))"
  proof (cases "parse_xml pkg doc_path")
    case None
    then show ?thesis using deconflict_ids_clean [of pkg] by (simp add: phase_writes_def)
  next
    case (Some doc)
    with assms have wf: "wf_doc doc" by simp
    show ?thesis
    proof (cases "has_collision doc")
      case False
      with Some show ?thesis using deconflict_ids_clean [of pkg] by (auto simp: phase_writes_def)
    next
      case True
      note eq = deconflict_ids_collision [OF Some wf True]
      have ch: "Some (to_part (relabelled doc)) \<noteq> map_of (files pkg) doc_path"
        using Some relabelled_changed [OF True] by (simp add: parse_xml_Some_map_of to_part_neq)
      show ?thesis
      proof (cases "parse_xml pkg comments_path")
        case None
        with Some True ch show ?thesis
          by (simp add: eq phase_writes_def map_of_files_write_xml)
      next
        case (Some cdoc)
        with \<open>parse_xml pkg doc_path = Some doc\<close> True ch show ?thesis
          by (simp add: eq phase_writes_def map_of_files_write_xml)
      qed
    qed
  qed
  then show "take (length (written pkg)) (written ?pkg') = written pkg"
    and "distinct (phase_writes pkg ?pkg')"
    and "set (phase_writes pkg ?pkg') \<subseteq> {doc_path, comments_path}"
    and "doc_path \<in> set (phase_writes pkg ?pkg') \<longrightarrow>
           map_of (files ?pkg') doc_path \<noteq> map_of (files pkg) doc_path"
    and "comments_path \<in> set (phase_writes pkg ?pkg') \<longleftrightarrow>
           (\<exists>doc cdoc. parse_xml pkg doc_path = Some doc \<and> has_collision doc \<and>
              parse_xml pkg comments_path = Some cdoc \<and> fst (comment_id_remap doc) \<noteq> [])"
    by blast+
qed

text \<open>
  Claim C8. The relationship-dedup, orphan-cleanup and whitespace phases write a part only
  when it changed (the three lemmas above), and the deconfliction phase writes
  \<^verbatim>\<open>document.xml\<close> only when it changed. Its write of \<^verbatim>\<open>comments.xml\<close> is guarded by
  \<^verbatim>\<open>comments_doc and comment_id_remap\<close>, not by a change of the part. In a package whose
  document has a bookmark and a comment anchor on id 5, and whose \<^verbatim>\<open>comments.xml\<close> has one
  entry with id 9, the comment id 5 is remapped, no entry of \<^verbatim>\<open>comments.xml\<close> is touched,
  and the part is written back with the content it had.
\<close>

theorem deconflict_ids_rewrites_clean_comments:
  "parse_xml pkg_stale_comments doc_path = Some doc_bookmark_comment \<and>
   wf_doc doc_bookmark_comment \<and>
   fst (deconflict_ids pkg_stale_comments) =
     \<lparr>comments_renumbered = 1, changes_renumbered = 0\<rparr> \<and>
   phase_writes pkg_stale_comments (snd (deconflict_ids pkg_stale_comments)) =
     [''word/document.xml'', ''word/comments.xml''] \<and>
   map_of (files (snd (deconflict_ids pkg_stale_comments))) doc_path \<noteq>
     map_of (files pkg_stale_comments) doc_path \<and>
   map_of (files (snd (deconflict_ids pkg_stale_comments))) comments_path =
     map_of (files pkg_stale_comments) comments_path"
  by code_simp

section \<open>Running the pipeline twice\<close>

subsection \<open>The directory listing is kept\<close>




subsection \<open>A second relationship dedup\<close>






subsection \<open>A second orphan cleanup\<close>


lemma orphan_count_no_durable [simp]: "orphan_count (extensible_orphan {}) tg po = 0"
  by (auto simp: orphan_count_def extensible_orphan_def split: option.splits part.splits)










subsection \<open>The second run\<close>




end
